theory Spec2Isabelle
  imports Complex_Main "HOL-Library.Multiset" "HOL-Library.Log_Nat" "HOL-Library.Char_ord"
    "HOL-Library.List_Lexorder"
begin

section \<open>Time arithmetic\<close>

text \<open>
  A JavaScript \<^verbatim>\<open>Date\<close> is its time value: whole milliseconds since the epoch, here an
  \<open>int\<close>. An ISO string produced by \<^verbatim>\<open>toISOString\<close> and read back by
  \<^verbatim>\<open>new Date(iso).getTime()\<close> is that same number, so schedule timestamps are modelled
  by their millisecond value.
\<close>

text \<open>\<^verbatim>\<open>d.setUTCMinutes(0, 0, 0); return d.getTime()\<close>: the start of the UTC hour.\<close>

definition floorToHourTs :: "int \<Rightarrow> int" where
  "floorToHourTs timestampMs = (timestampMs div 3600000) * 3600000"

text \<open>\<^verbatim>\<open>Math.floor((timestampMs - floorToHourTs(timestampMs)) / 1000)\<close>\<close>

definition secondOfHour :: "int \<Rightarrow> int" where
  "secondOfHour timestampMs = (timestampMs - floorToHourTs timestampMs) div 1000"

text \<open>
  \<^verbatim>\<open>Math.round(ms / 1000)\<close>: JavaScript rounds to the nearest integer, a tie towards
  plus infinity, that is \<open>floor (ms / 1000 + 1 / 2)\<close>.
\<close>

definition roundSec :: "int \<Rightarrow> int" where
  "roundSec ms = (ms + 500) div 1000"

text \<open>\<^verbatim>\<open>Math.ceil(ms / 1000)\<close> and \<^verbatim>\<open>Math.floor(ms / 1000)\<close>\<close>

definition ceilSec :: "int \<Rightarrow> int" where
  "ceilSec ms = - ((- ms) div 1000)"

definition floorSec :: "int \<Rightarrow> int" where
  "floorSec ms = ms div 1000"

section \<open>enforceUniqueIntervals\<close>

text \<open>
  The mutable locals of \<^verbatim>\<open>enforceUniqueIntervals\<close>: the array \<^verbatim>\<open>times\<close> (field \<open>timesMs\<close>), the set
  \<^verbatim>\<open>usedIntervals\<close> and the map \<^verbatim>\<open>hourToSeconds\<close> from an hour start to the set of
  seconds taken in that hour.
\<close>

record ustate =
  timesMs :: "int list"
  usedIntervals :: "int set"
  hourToSeconds :: "int \<rightharpoonup> int set"

text \<open>
  The first loop, \<^verbatim>\<open>for (const t of times)\<close>: every timestamp's second is entered in
  the set of its hour.
\<close>

fun initHourSeconds :: "int list \<Rightarrow> (int \<rightharpoonup> int set) \<Rightarrow> (int \<rightharpoonup> int set)" where
  "initHourSeconds [] m = m"
| "initHourSeconds (t # ts) m =
     (let hourKey = floorToHourTs t;
          sec = secondOfHour t;
          old = (case m hourKey of None \<Rightarrow> {} | Some s \<Rightarrow> s)
      in initHourSeconds ts (m(hourKey \<mapsto> insert sec old)))"

text \<open>
  The body of \<^verbatim>\<open>for (const candSec of candidates)\<close>, shared by the radius search and
  the sequential fallback: the first candidate second that is free in the hour and whose
  gap to \<open>prev\<close> is unused gives the new timestamp and the new gap.
\<close>

fun tryCandidates :: "int set \<Rightarrow> int set \<Rightarrow> int \<Rightarrow> int \<Rightarrow> int list \<Rightarrow> (int \<times> int) option" where
  "tryCandidates usedSecsInHour used hourStart prev [] = None"
| "tryCandidates usedSecsInHour used hourStart prev (candSec # rest) =
     (if candSec \<in> usedSecsInHour then tryCandidates usedSecsInHour used hourStart prev rest
      else let candTs = hourStart + candSec * 1000;
               candDelta = max 1 (roundSec (candTs - prev))
           in if candDelta \<in> used then tryCandidates usedSecsInHour used hourStart prev rest
              else Some (candTs, candDelta))"

text \<open>
  \<^verbatim>\<open>for (let r = 1; r <= radiusLimit && !found; r += 1)\<close>, over the list of radii: at
  radius \<open>r\<close> the candidates are \<open>baseSec + r\<close> when it is at most \<open>ubSec\<close>, then
  \<open>baseSec - r\<close> when it is at least \<open>lbSec\<close>.
\<close>

fun radiusSearch ::
  "int set \<Rightarrow> int set \<Rightarrow> int \<Rightarrow> int \<Rightarrow> int \<Rightarrow> int \<Rightarrow> int \<Rightarrow> int list \<Rightarrow> (int \<times> int) option" where
  "radiusSearch usedSecsInHour used hourStart prev baseSec lbSec ubSec [] = None"
| "radiusSearch usedSecsInHour used hourStart prev baseSec lbSec ubSec (r # rs) =
     (let plus = baseSec + r;
          minus = baseSec - r;
          candidates = (if plus \<le> ubSec then [plus] else []) @ (if minus \<ge> lbSec then [minus] else [])
      in case tryCandidates usedSecsInHour used hourStart prev candidates of
           Some found \<Rightarrow> Some found
         | None \<Rightarrow> radiusSearch usedSecsInHour used hourStart prev baseSec lbSec ubSec rs)"

definition radiusLimit :: int where
  "radiusLimit = 300"

text \<open>One iteration of the main loop, for index \<open>i\<close>.\<close>

definition adjustAt :: "nat \<Rightarrow> ustate \<Rightarrow> ustate" where
  "adjustAt i st =
     (let prev = timesMs st ! (i - 1);
          curr = timesMs st ! i;
          deltaSec = max 1 (roundSec (curr - prev))
      in if deltaSec \<notin> usedIntervals st
         then st\<lparr>usedIntervals := insert deltaSec (usedIntervals st)\<rparr>
         else
           let hourKey = floorToHourTs curr;
               hourStart = hourKey;
               hourEnd = hourStart + 3600000 - 1;
               lowerBound = max hourStart (prev + 1000);
               upperBound = (if i + 1 < length (timesMs st)
                             then min hourEnd (timesMs st ! (i + 1) - 1000) else hourEnd)
           in if lowerBound > upperBound
              then st\<lparr>usedIntervals := insert deltaSec (usedIntervals st)\<rparr>
              else
                let currentSecOfHour = secondOfHour curr;
                    usedSecsInHour =
                      (case hourToSeconds st hourKey of None \<Rightarrow> {} | Some s \<Rightarrow> s) - {currentSecOfHour};
                    baseSec = secondOfHour curr;
                    lbSec = ceilSec (lowerBound - hourStart);
                    ubSec = floorSec (upperBound - hourStart);
                    found =
                      (case radiusSearch usedSecsInHour (usedIntervals st) hourStart prev
                              baseSec lbSec ubSec [1..radiusLimit] of
                         Some f \<Rightarrow> Some f
                       | None \<Rightarrow>
                           tryCandidates usedSecsInHour (usedIntervals st) hourStart prev [lbSec..ubSec]);
                    curr' = (case found of Some (candTs, candDelta) \<Rightarrow> candTs | None \<Rightarrow> curr);
                    deltaSec' = (case found of Some (candTs, candDelta) \<Rightarrow> candDelta | None \<Rightarrow> deltaSec)
                in st\<lparr>timesMs := (timesMs st)[i := curr'],
                      usedIntervals := insert deltaSec' (usedIntervals st),
                      hourToSeconds := (hourToSeconds st)(hourKey \<mapsto> insert (secondOfHour curr') usedSecsInHour)\<rparr>)"

text \<open>
  \<^verbatim>\<open>for (let i = 1; i < times.length; i += 1)\<close>: the array's length never changes, so
  the loop runs over the indices \<open>1 ..< length\<close>.
\<close>

definition enforceUniqueIntervals :: "int list \<Rightarrow> int list" where
  "enforceUniqueIntervals scheduleIsoArray =
     (if length scheduleIsoArray \<le> 1 then scheduleIsoArray
      else timesMs (foldl (\<lambda>st i. adjustAt i st)
                    \<lparr>timesMs = scheduleIsoArray, usedIntervals = {},
                     hourToSeconds = initHourSeconds scheduleIsoArray Map.empty\<rparr>
                    [1..<length scheduleIsoArray]))"

section \<open>JavaScript numbers\<close>

text \<open>
  A JavaScript number is an IEEE 754 double: a finite value, one of the two infinities,
  or \<^verbatim>\<open>NaN\<close>. \<open>'a number\<close> is used at two types. A count, an hour span or a time value
  is an \<open>int number\<close>: such values are whole numbers, and the arithmetic of doubles on
  whole numbers is exact as long as they stay below \<open>2 ^ 53\<close> in absolute value, which
  the model takes for granted. An amount of money is a \<open>real number\<close>, a \<open>double\<close>: it may
  have a fraction, and a product or quotient of amounts is rounded to the nearest double.
  The model has a single zero (JavaScript's \<^verbatim>\<open>-0\<close> is not told apart from \<^verbatim>\<open>0\<close>).
\<close>

datatype 'a number = Finite 'a | PlusInfinity | MinusInfinity | NaN

type_synonym double = "real number"

subsection \<open>Rounding to the nearest double\<close>

text \<open>
  \<open>binade x\<close> is the exponent \<open>e\<close> with \<open>2 ^ e \<le> \<bar>x\<bar> < 2 ^ (e + 1)\<close>, computed from the
  bit length of the integer part of \<open>\<bar>x\<bar>\<close> or of its inverse. A double has 53
  significant bits, so the doubles around \<open>x\<close> are the multiples of
  \<open>ulp x = 2 ^ (binade x - 52)\<close>; below \<open>2 ^ (- 1022)\<close> (subnormal numbers) the spacing
  stays \<open>2 ^ (- 1074)\<close>. \<open>nearestDouble x\<close> is the multiple nearest to \<open>x\<close>, a tie going
  to the even multiple, and \<open>doubleOf x\<close> the double an operation returns whose exact
  result is \<open>x\<close>: an infinity when the rounded result reaches \<open>2 ^ 1024\<close>.
\<close>

definition pow2 :: "int \<Rightarrow> real" where
  "pow2 k = (if 0 \<le> k then 2 ^ nat k else 1 / 2 ^ nat (- k))"

definition binade :: "real \<Rightarrow> int" where
  "binade x = (if 1 \<le> \<bar>x\<bar> then bitlen \<lfloor>\<bar>x\<bar>\<rfloor> - 1 else - bitlen (\<lceil>1 / \<bar>x\<bar>\<rceil> - 1))"

definition roundTiesToEven :: "real \<Rightarrow> int" where
  "roundTiesToEven y =
     (let f = \<lfloor>y\<rfloor>
      in if y - real_of_int f < 1 / 2 then f
         else if 1 / 2 < y - real_of_int f then f + 1
         else if even f then f else f + 1)"

definition ulp :: "real \<Rightarrow> real" where
  "ulp x = pow2 (max (binade x) (- 1022) - 52)"

definition nearestDouble :: "real \<Rightarrow> real" where
  "nearestDouble x = (if x = 0 then 0 else real_of_int (roundTiesToEven (x / ulp x)) * ulp x)"

definition doubleOf :: "real \<Rightarrow> double" where
  "doubleOf x =
     (let y = nearestDouble x
      in if 2 ^ 1024 \<le> y then PlusInfinity
         else if y \<le> - (2 ^ 1024) then MinusInfinity
         else Finite y)"

subsection \<open>Operations on amounts\<close>

text \<open>\<^verbatim>\<open>x / y\<close> on doubles.\<close>

fun jsDivide :: "double \<Rightarrow> double \<Rightarrow> double" where
  "jsDivide (Finite x) (Finite y) =
     (if y \<noteq> 0 then doubleOf (x / y)
      else if 0 < x then PlusInfinity else if x < 0 then MinusInfinity else NaN)"
| "jsDivide (Finite x) PlusInfinity = Finite 0"
| "jsDivide (Finite x) MinusInfinity = Finite 0"
| "jsDivide PlusInfinity (Finite y) = (if 0 \<le> y then PlusInfinity else MinusInfinity)"
| "jsDivide MinusInfinity (Finite y) = (if 0 \<le> y then MinusInfinity else PlusInfinity)"
| "jsDivide _ _ = NaN"

text \<open>\<^verbatim>\<open>Math.ceil(x)\<close>, whose result is a whole number.\<close>

fun jsCeil :: "double \<Rightarrow> int number" where
  "jsCeil (Finite x) = Finite \<lceil>x\<rceil>"
| "jsCeil PlusInfinity = PlusInfinity"
| "jsCeil MinusInfinity = MinusInfinity"
| "jsCeil NaN = NaN"

text \<open>\<^verbatim>\<open>n * y\<close> for a count \<open>n\<close> and an amount \<open>y\<close>.\<close>

fun jsTimes :: "int number \<Rightarrow> double \<Rightarrow> double" where
  "jsTimes (Finite n) (Finite y) = doubleOf (real_of_int n * y)"
| "jsTimes (Finite n) PlusInfinity =
     (if n = 0 then NaN else if 0 < n then PlusInfinity else MinusInfinity)"
| "jsTimes (Finite n) MinusInfinity =
     (if n = 0 then NaN else if 0 < n then MinusInfinity else PlusInfinity)"
| "jsTimes PlusInfinity (Finite y) =
     (if y = 0 then NaN else if 0 < y then PlusInfinity else MinusInfinity)"
| "jsTimes MinusInfinity (Finite y) =
     (if y = 0 then NaN else if 0 < y then MinusInfinity else PlusInfinity)"
| "jsTimes PlusInfinity PlusInfinity = PlusInfinity"
| "jsTimes PlusInfinity MinusInfinity = MinusInfinity"
| "jsTimes MinusInfinity PlusInfinity = MinusInfinity"
| "jsTimes MinusInfinity MinusInfinity = PlusInfinity"
| "jsTimes _ _ = NaN"

subsection \<open>Operations on whole numbers\<close>

text \<open>\<^verbatim>\<open>x + y\<close>, \<^verbatim>\<open>x - y\<close> and \<^verbatim>\<open>x * y\<close>\<close>

fun jsPlus :: "int number \<Rightarrow> int number \<Rightarrow> int number" where
  "jsPlus (Finite a) (Finite b) = Finite (a + b)"
| "jsPlus (Finite a) PlusInfinity = PlusInfinity"
| "jsPlus (Finite a) MinusInfinity = MinusInfinity"
| "jsPlus PlusInfinity (Finite b) = PlusInfinity"
| "jsPlus MinusInfinity (Finite b) = MinusInfinity"
| "jsPlus PlusInfinity PlusInfinity = PlusInfinity"
| "jsPlus MinusInfinity MinusInfinity = MinusInfinity"
| "jsPlus _ _ = NaN"

fun jsMinus :: "int number \<Rightarrow> int number \<Rightarrow> int number" where
  "jsMinus (Finite a) (Finite b) = Finite (a - b)"
| "jsMinus (Finite a) PlusInfinity = MinusInfinity"
| "jsMinus (Finite a) MinusInfinity = PlusInfinity"
| "jsMinus PlusInfinity (Finite b) = PlusInfinity"
| "jsMinus MinusInfinity (Finite b) = MinusInfinity"
| "jsMinus PlusInfinity MinusInfinity = PlusInfinity"
| "jsMinus MinusInfinity PlusInfinity = MinusInfinity"
| "jsMinus _ _ = NaN"

fun jsMult :: "int number \<Rightarrow> int number \<Rightarrow> int number" where
  "jsMult (Finite a) (Finite b) = Finite (a * b)"
| "jsMult (Finite a) PlusInfinity =
     (if a = 0 then NaN else if 0 < a then PlusInfinity else MinusInfinity)"
| "jsMult (Finite a) MinusInfinity =
     (if a = 0 then NaN else if 0 < a then MinusInfinity else PlusInfinity)"
| "jsMult PlusInfinity (Finite b) =
     (if b = 0 then NaN else if 0 < b then PlusInfinity else MinusInfinity)"
| "jsMult MinusInfinity (Finite b) =
     (if b = 0 then NaN else if 0 < b then MinusInfinity else PlusInfinity)"
| "jsMult PlusInfinity PlusInfinity = PlusInfinity"
| "jsMult PlusInfinity MinusInfinity = MinusInfinity"
| "jsMult MinusInfinity PlusInfinity = MinusInfinity"
| "jsMult MinusInfinity MinusInfinity = PlusInfinity"
| "jsMult _ _ = NaN"

text \<open>\<^verbatim>\<open>Math.ceil(a / b)\<close> on integers with a divisor other than zero.\<close>

definition ceilDiv :: "int \<Rightarrow> int \<Rightarrow> int" where
  "ceilDiv a b = - ((- a) div b)"

text \<open>\<^verbatim>\<open>Math.ceil(x / y)\<close> on whole numbers.\<close>

fun jsCeilDivide :: "int number \<Rightarrow> int number \<Rightarrow> int number" where
  "jsCeilDivide (Finite a) (Finite b) =
     (if b \<noteq> 0 then Finite (ceilDiv a b)
      else if 0 < a then PlusInfinity else if a < 0 then MinusInfinity else NaN)"
| "jsCeilDivide (Finite a) PlusInfinity = Finite 0"
| "jsCeilDivide (Finite a) MinusInfinity = Finite 0"
| "jsCeilDivide PlusInfinity (Finite b) = (if 0 \<le> b then PlusInfinity else MinusInfinity)"
| "jsCeilDivide MinusInfinity (Finite b) = (if 0 \<le> b then MinusInfinity else PlusInfinity)"
| "jsCeilDivide _ _ = NaN"

text \<open>\<^verbatim>\<open>Math.max(x, y)\<close> and \<^verbatim>\<open>Math.min(x, y)\<close>: \<^verbatim>\<open>NaN\<close> as soon as an argument is.\<close>

fun jsMax :: "int number \<Rightarrow> int number \<Rightarrow> int number" where
  "jsMax NaN y = NaN"
| "jsMax x NaN = NaN"
| "jsMax PlusInfinity y = PlusInfinity"
| "jsMax x PlusInfinity = PlusInfinity"
| "jsMax MinusInfinity y = y"
| "jsMax x MinusInfinity = x"
| "jsMax (Finite a) (Finite b) = Finite (max a b)"

fun jsMin :: "int number \<Rightarrow> int number \<Rightarrow> int number" where
  "jsMin NaN y = NaN"
| "jsMin x NaN = NaN"
| "jsMin MinusInfinity y = MinusInfinity"
| "jsMin x MinusInfinity = MinusInfinity"
| "jsMin PlusInfinity y = y"
| "jsMin x PlusInfinity = x"
| "jsMin (Finite a) (Finite b) = Finite (min a b)"

text \<open>\<^verbatim>\<open>x < y\<close>: false as soon as an argument is \<^verbatim>\<open>NaN\<close>.\<close>

fun jsLess :: "int number \<Rightarrow> int number \<Rightarrow> bool" where
  "jsLess (Finite a) (Finite b) = (a < b)"
| "jsLess (Finite a) PlusInfinity = True"
| "jsLess MinusInfinity (Finite b) = True"
| "jsLess MinusInfinity PlusInfinity = True"
| "jsLess _ _ = False"

section \<open>Configuration and runtime\<close>

text \<open>
  The configuration object \<^verbatim>\<open>defaulted\<close> of \<^verbatim>\<open>main\<close>. Times are the ISO strings of
  the configuration file. The amounts are JavaScript numbers of type \<open>'n\<close>: the schedule
  generator computes with them as doubles (\<open>double config\<close>), while the signature, the
  dispatch and \<^verbatim>\<open>main\<close> are modelled for configurations whose amounts are integers
  (\<open>int config\<close>), which \<^verbatim>\<open>JSON.stringify\<close> prints in decimal and whose sums are
  exact. The two rates per hour are whole numbers. A property of \<^verbatim>\<open>specialPhase\<close> that
  may be \<^verbatim>\<open>undefined\<close> is an \<open>option\<close>; \<^verbatim>\<open>enabled\<close> is read through \<^verbatim>\<open>!!\<close> and in a
  condition only, hence a \<open>bool\<close>.
\<close>

record specialPhase =
  enabled :: bool
  countdownStartUtc :: "string option"
  presaleStartUtc :: "string option"
  initialBurstMinutes :: "int option"
  initialBurstCount :: "int option"

record 'n config =
  startTimeUtc :: string
  endTimeUtc :: string
  targetTotalUsd :: 'n
  amountPerMessageUsd :: 'n
  minPerHour :: int
  maxPerHour :: int
  tokensPerHundred :: 'n
  startRaisedUsd :: 'n
  enforceHardStopAtEnd :: bool
  BOT_TOKEN :: "string option"
  TARGET_CHAT_ID :: "string option"
  specialPhase :: "specialPhase option"

text \<open>A configuration with integer amounts, as the generator reads it: an integer is a double.\<close>

definition doubles :: "int config \<Rightarrow> double config" where
  "doubles cfg =
     \<lparr>startTimeUtc = startTimeUtc cfg, endTimeUtc = endTimeUtc cfg,
      targetTotalUsd = Finite (real_of_int (targetTotalUsd cfg)),
      amountPerMessageUsd = Finite (real_of_int (amountPerMessageUsd cfg)),
      minPerHour = minPerHour cfg, maxPerHour = maxPerHour cfg,
      tokensPerHundred = Finite (real_of_int (tokensPerHundred cfg)),
      startRaisedUsd = Finite (real_of_int (startRaisedUsd cfg)),
      enforceHardStopAtEnd = enforceHardStopAtEnd cfg,
      BOT_TOKEN = BOT_TOKEN cfg, TARGET_CHAT_ID = TARGET_CHAT_ID cfg,
      specialPhase = specialPhase cfg\<rparr>"

text \<open>
  What the schedule generator takes from the JavaScript runtime rather than from its
  arguments:
  \<^item> \<open>validDate s\<close> tells whether \<^verbatim>\<open>new Date(s)\<close> is a valid date, \<open>parseDate s\<close> is
    then \<^verbatim>\<open>new Date(s).getTime()\<close>, and \<open>toISOString t\<close> is
    \<^verbatim>\<open>new Date(t).toISOString()\<close> (time values stay inside the range of \<^verbatim>\<open>Date\<close>);
  \<^item> \<open>random i\<close> is the value of \<^verbatim>\<open>Math.random()\<close> drawn for the noise of hour \<open>i\<close>;
  \<^item> \<open>shuffle k xs\<close> is the result of the \<open>k\<close>-th
    \<^verbatim>\<open>.sort(() => Math.random() - 0.5)\<close> that runs, on the index array \<open>xs\<close>;
  \<^item> \<open>pickSeconds h n\<close> is the sorted array of \<open>n\<close> distinct seconds that the
    rejection sampling of \<^verbatim>\<open>sampleUniqueSecondsWithinHour\<close> ends with for hour \<open>h\<close>,
    and \<open>pickBurst n m\<close> the same for \<^verbatim>\<open>sampleUniqueSeconds\<close> on \<open>m\<close> seconds.
\<close>

record runtime =
  validDate :: "string \<Rightarrow> bool"
  parseDate :: "string \<Rightarrow> int"
  toISOString :: "int \<Rightarrow> string"
  random :: "nat \<Rightarrow> real"
  shuffle :: "nat \<Rightarrow> nat list \<Rightarrow> nat list"
  pickSeconds :: "nat \<Rightarrow> int \<Rightarrow> int list"
  pickBurst :: "int \<Rightarrow> int \<Rightarrow> int list"

text \<open>\<^verbatim>\<open>new Date(s).getTime()\<close>, which is \<^verbatim>\<open>NaN\<close> for an invalid date.\<close>

definition getTime :: "runtime \<Rightarrow> string \<Rightarrow> int number" where
  "getTime rt s = (if validDate rt s then Finite (parseDate rt s) else NaN)"

section \<open>generateSchedule: the per-hour allocation\<close>

text \<open>\<^verbatim>\<open>Math.round(x)\<close>: the nearest integer, a tie towards plus infinity.\<close>

definition jsRound :: "real \<Rightarrow> int" where
  "jsRound x = \<lfloor>x + 1 / 2\<rfloor>"

text \<open>\<^verbatim>\<open>getUTCHours\<close> and \<^verbatim>\<open>getUTCDay\<close> of a time value; 1 January 1970 was a Thursday (4).\<close>

definition getUTCHours :: "int \<Rightarrow> int" where
  "getUTCHours t = (t div 3600000) mod 24"

definition getUTCDay :: "int \<Rightarrow> int" where
  "getUTCDay t = (t div 86400000 + 4) mod 7"

definition weekdayBias :: "real list" where
  "weekdayBias = [0.9, 0.95, 1.0, 1.05, 1.1, 1.2, 1.25]"

definition hourWeight :: "(nat \<Rightarrow> real) \<Rightarrow> int \<Rightarrow> nat \<Rightarrow> real" where
  "hourWeight rand startMs i =
     (let d = startMs + int i * 3600000;
          hour = getUTCHours d;
          day = getUTCDay d;
          diurnal = 0.95 + 0.35 * sin ((2 * pi * (real_of_int hour + 2)) / 24);
          bias = weekdayBias ! nat day;
          noise = 0.9 + rand i * 0.3
      in diurnal * bias * noise)"

text \<open>
  The loop \<^verbatim>\<open>for (let i = 0; i < hours; i += 1)\<close> of \<^verbatim>\<open>generatePerHourWeights\<close>, from
  counter \<open>i\<close> with the array \<open>weights\<close> so far. With \<^verbatim>\<open>hours\<close> infinite the loop does
  not end, and the function has no value.
\<close>

partial_function (option) weightsFrom ::
  "(nat \<Rightarrow> real) \<Rightarrow> int \<Rightarrow> int number \<Rightarrow> nat \<Rightarrow> real list \<Rightarrow> real list option" where
  "weightsFrom rand startMs hours i weights =
     (if jsLess (Finite (int i)) hours
      then weightsFrom rand startMs hours (i + 1) (weights @ [hourWeight rand startMs i])
      else Some weights)"

definition generatePerHourWeights :: "(nat \<Rightarrow> real) \<Rightarrow> int \<Rightarrow> int number \<Rightarrow> real list option" where
  "generatePerHourWeights rand startMs hours = weightsFrom rand startMs hours 0 []"

text \<open>\<^verbatim>\<open>Math.ceil(config.targetTotalUsd / amountPerMessage)\<close>\<close>

definition totalMessagesNeeded :: "double config \<Rightarrow> int number" where
  "totalMessagesNeeded cfg = jsCeil (jsDivide (targetTotalUsd cfg) (amountPerMessageUsd cfg))"

text \<open>
  The hour span of \<^verbatim>\<open>generateSchedule\<close>: at least one hour, extended by
  \<^verbatim>\<open>Math.ceil((totalMessagesNeeded - maxPossible) / maxPerHour)\<close> hours when the span
  cannot hold the total at \<^verbatim>\<open>maxPerHour\<close>. It is \<^verbatim>\<open>NaN\<close> when a date is invalid and
  infinite when the extension divides by a \<^verbatim>\<open>maxPerHour\<close> of zero.
\<close>

definition spanHours :: "runtime \<Rightarrow> double config \<Rightarrow> int number" where
  "spanHours rt cfg =
     (let start = getTime rt (startTimeUtc cfg);
          desiredEnd = getTime rt (endTimeUtc cfg);
          initialHours = jsCeilDivide (jsMinus desiredEnd start) (Finite 3600000);
          hours = jsMax (Finite 1) initialHours;
          maxPossible = jsMult hours (Finite (maxPerHour cfg))
      in if jsLess maxPossible (totalMessagesNeeded cfg)
         then jsPlus hours
                (jsCeilDivide (jsMinus (totalMessagesNeeded cfg) maxPossible)
                   (Finite (maxPerHour cfg)))
         else hours)"

text \<open>
  \<^verbatim>\<open>for (const i of idxs) { if (diff <= 0) break; ... }\<close>: hours take what is missing,
  each up to its headroom under \<^verbatim>\<open>maxPerHour\<close>. The result is the array and what is
  still missing. The same loop runs in the first rebalancing and in the final adjustment.
\<close>

fun addHeadroom :: "int \<Rightarrow> nat list \<Rightarrow> int list \<Rightarrow> int \<Rightarrow> int list \<times> int" where
  "addHeadroom mx [] perHour diff = (perHour, diff)"
| "addHeadroom mx (i # idxs) perHour diff =
     (if diff \<le> 0 then (perHour, diff)
      else let headroom = mx - perHour ! i
           in if headroom > 0
              then let add = min headroom diff
                   in addHeadroom mx idxs (perHour[i := perHour ! i + add]) (diff - add)
              else addHeadroom mx idxs perHour diff)"

text \<open>
  \<^verbatim>\<open>for (const i of idxs) { if (remaining <= 0) break; ... }\<close>: hours give up what is
  in excess, each down to \<open>floorLevel\<close>: zero in the two rebalancing loops
  (\<^verbatim>\<open>Math.max(0, perHour[i])\<close>), \<^verbatim>\<open>minPerHour\<close> when the soft floor borrows
  (\<^verbatim>\<open>Math.max(0, perHour[i] - minPerHour)\<close>).
\<close>

fun takeDown :: "int \<Rightarrow> nat list \<Rightarrow> int list \<Rightarrow> int \<Rightarrow> int list \<times> int" where
  "takeDown floorLevel [] perHour remaining = (perHour, remaining)"
| "takeDown floorLevel (i # idxs) perHour remaining =
     (if remaining \<le> 0 then (perHour, remaining)
      else let reducible = max 0 (perHour ! i - floorLevel)
           in if reducible > 0
              then let r = min reducible remaining
                   in takeDown floorLevel idxs (perHour[i := perHour ! i - r]) (remaining - r)
              else takeDown floorLevel idxs perHour remaining)"

text \<open>
  The block under \<^verbatim>\<open>if (currentTotal !== totalMessagesNeeded)\<close>: clamp to
  \<^verbatim>\<open>maxPerHour\<close>, then add or remove the difference in shuffled hour order.
\<close>

definition rebalance :: "runtime \<Rightarrow> int \<Rightarrow> int \<Rightarrow> int list \<Rightarrow> int list" where
  "rebalance rt mx needed perHour =
     (if sum_list perHour \<noteq> needed
      then let clamped = map (\<lambda>n. min n mx) perHour;
               diff = needed - sum_list clamped
           in if diff > 0
              then fst (addHeadroom mx (shuffle rt 0 [0..<length perHour]) clamped diff)
              else if diff < 0
              then fst (takeDown 0 (shuffle rt 0 [0..<length perHour]) clamped (- diff))
              else clamped
      else perHour)"

text \<open>
  The soft floor: every hour under \<^verbatim>\<open>minPerHour\<close> is raised to it, and the deficit so
  created is borrowed from hours above \<^verbatim>\<open>minPerHour\<close>, in shuffled order.
\<close>

fun raiseToMin :: "int \<Rightarrow> int list \<Rightarrow> int list \<times> int" where
  "raiseToMin mn [] = ([], 0)"
| "raiseToMin mn (n # rest) =
     (let (rest', deficit) = raiseToMin mn rest
      in if n < mn then ((n + (mn - n)) # rest', deficit + (mn - n)) else (n # rest', deficit))"

definition softFloor :: "runtime \<Rightarrow> int \<Rightarrow> int list \<Rightarrow> int list" where
  "softFloor rt mn perHour =
     (let (raised, deficit) = raiseToMin mn perHour
      in if deficit > 0
         then fst (takeDown mn (shuffle rt 1 [0..<length perHour]) raised deficit)
         else raised)"

text \<open>The block under \<^verbatim>\<open>// Final adjust to exact total\<close>.\<close>

definition finalAdjust :: "runtime \<Rightarrow> int \<Rightarrow> int \<Rightarrow> int list \<Rightarrow> int list" where
  "finalAdjust rt mx needed perHour =
     (let sumNow = sum_list perHour;
          finalDiff = needed - sumNow
      in if finalDiff \<noteq> 0
         then if finalDiff > 0
              then fst (addHeadroom mx (shuffle rt 2 [0..<length perHour]) perHour finalDiff)
              else fst (takeDown 0 (shuffle rt 2 [0..<length perHour]) perHour (- finalDiff))
         else perHour)"

text \<open>
  The array \<^verbatim>\<open>perHour\<close> of \<^verbatim>\<open>generateSchedule\<close> for a finite total \<open>needed\<close>: the
  rounded shares of the weights, and what they are when the sampling of the seconds
  starts: rebalanced, floored and adjusted.
\<close>

definition initialPerHour :: "real list \<Rightarrow> int \<Rightarrow> int list" where
  "initialPerHour weights needed =
     (let sumWeights = sum_list weights
      in map (\<lambda>w. jsRound ((w / sumWeights) * real_of_int needed)) weights)"

definition perHourAllocation :: "runtime \<Rightarrow> double config \<Rightarrow> real list \<Rightarrow> int \<Rightarrow> int list" where
  "perHourAllocation rt cfg weights needed =
     finalAdjust rt (maxPerHour cfg) needed
       (softFloor rt (minPerHour cfg)
          (rebalance rt (maxPerHour cfg) needed (initialPerHour weights needed)))"

section \<open>generateSchedule and generateFullSchedule\<close>

text \<open>
  \<^verbatim>\<open>sampleUniqueSecondsWithinHour(count)\<close>: every second of the hour when the count
  reaches 3600, otherwise what the rejection sampling ends with.
\<close>

definition sampleUniqueSecondsWithinHour :: "runtime \<Rightarrow> nat \<Rightarrow> int \<Rightarrow> int list" where
  "sampleUniqueSecondsWithinHour rt h cnt =
     (if cnt \<ge> 3600 then [0..3599] else pickSeconds rt h cnt)"

definition sampleUniqueSeconds :: "runtime \<Rightarrow> int \<Rightarrow> int \<Rightarrow> int list" where
  "sampleUniqueSeconds rt cnt spanSeconds =
     (let mx = max 1 spanSeconds
      in if cnt \<ge> mx then [0..mx - 1] else pickBurst rt cnt mx)"

text \<open>
  What a call does other than return a value: it throws (a \<^verbatim>\<open>RangeError\<close> from
  \<^verbatim>\<open>toISOString\<close> of an invalid date), or \<^verbatim>\<open>main\<close> exits for want of the bot's
  identity. \<open>NoReturn\<close> is not an exception: it stands, in \<^verbatim>\<open>main\<close>, for a call of the
  generator that does not return.
\<close>

datatype error = RangeError | MissingIdentity | NoReturn

text \<open>The object \<^verbatim>\<open>{ schedule, effectiveEnd, totalMessagesNeeded }\<close> that \<^verbatim>\<open>generateSchedule\<close> returns.\<close>

record generated =
  g_schedule :: "int list"
  g_effectiveEnd :: int
  g_totalMessagesNeeded :: "int number"

text \<open>
  \<^verbatim>\<open>generateSchedule\<close>. The result is \<open>None\<close> when the call does not return (the loop
  of the weights under an infinite span), and otherwise what it throws or returns:
  \<^item> \<^verbatim>\<open>start.toISOString()\<close>, in the call of \<^verbatim>\<open>generatePerHourWeights\<close>, throws for an
    invalid start;
  \<^item> a span that is \<^verbatim>\<open>NaN\<close> (an invalid end) or \<^verbatim>\<open>-Infinity\<close> runs none of the loops,
    and \<^verbatim>\<open>effectiveEnd.toISOString()\<close> throws at the end;
  \<^item> under a finite span, a total that is \<^verbatim>\<open>NaN\<close> or \<^verbatim>\<open>-Infinity\<close> leaves \<^verbatim>\<open>NaN\<close>
    in every entry of \<^verbatim>\<open>perHour\<close> (each comparison of the passes with \<^verbatim>\<open>NaN\<close> is
    false), and \<^verbatim>\<open>sampleUniqueSecondsWithinHour(NaN)\<close> is the empty array (a total of
    \<^verbatim>\<open>Infinity\<close> does not leave the span finite);
  \<^item> \<^verbatim>\<open>schedule.sort()\<close> compares the ISO strings.
\<close>

definition generateSchedule :: "runtime \<Rightarrow> double config \<Rightarrow> (error + generated) option" where
  "generateSchedule rt cfg =
     (let needed = totalMessagesNeeded cfg;
          hours = spanHours rt cfg
      in if \<not> validDate rt (startTimeUtc cfg) then Some (Inl RangeError)
         else
           let start = parseDate rt (startTimeUtc cfg)
           in case generatePerHourWeights (random rt) start hours of
                None \<Rightarrow> None
              | Some weights \<Rightarrow>
                  (case hours of
                     Finite h \<Rightarrow>
                       let schedule =
                             (case needed of
                                Finite n \<Rightarrow>
                                  let perHour = perHourAllocation rt cfg weights n
                                  in concat
                                       (map (\<lambda>hr. let hourStart = start + int hr * 3600000;
                                                     seconds = sampleUniqueSecondsWithinHour rt hr
                                                                 (perHour ! hr)
                                                 in map (\<lambda>s. hourStart + s * 1000) seconds)
                                          [0..<nat h])
                              | _ \<Rightarrow> []);
                           uniqueSchedule = enforceUniqueIntervals (sort_key (toISOString rt) schedule)
                       in Some (Inr \<lparr>g_schedule = uniqueSchedule,
                                     g_effectiveEnd = start + h * 3600000,
                                     g_totalMessagesNeeded = needed\<rparr>)
                   | _ \<Rightarrow> Some (Inl RangeError)))"

text \<open>
  A schedule entry \<^verbatim>\<open>{ at, kind, text, image }\<close>. The source's kinds are the strings
  \<^verbatim>\<open>'buy'\<close>, \<^verbatim>\<open>'countdown'\<close> and \<^verbatim>\<open>'start'\<close>; \<open>OtherKind\<close> stands for any other
  value, which \<^verbatim>\<open>sendNextIfDue\<close> treats as an unknown type.
\<close>

datatype kind = Buy | Countdown | Start | OtherKind

record event =
  ev_at :: int
  ev_kind :: kind
  ev_text :: "string option"
  ev_image :: "string option"

text \<open>Decimal digits of a number, as template literals and \<^verbatim>\<open>JSON.stringify\<close> print them.\<close>

definition digitChar :: "nat \<Rightarrow> char" where
  "digitChar d = char_of (48 + d)"

fun showNat :: "nat \<Rightarrow> string" where
  "showNat n = (if n < 10 then [digitChar n] else showNat (n div 10) @ [digitChar (n mod 10)])"

definition showInt :: "int \<Rightarrow> string" where
  "showInt i = (if i < 0 then CHR ''-'' # showNat (nat (- i)) else showNat (nat i))"

text \<open>
  The message bodies are fixed literals with a head line and pictographs; the model keeps
  the head line.
\<close>

definition countdownText :: "int \<Rightarrow> string" where
  "countdownText minutes =
     showInt minutes @ '' MINUTE'' @ (if minutes \<noteq> 1 then ''S'' else []) @ '' TO LAUNCH!''"

definition launchText :: string where
  "launchText = ''BBLIP PRESALE IS LIVE!''"

definition countdownMessages :: "(int \<times> string) list" where
  "countdownMessages =
     [(59, ''59.png''), (30, ''30.png''), (5, ''5.png''), (4, ''4.png''), (3, ''3.png''),
      (2, ''2.png''), (1, ''1.png'')]"

text \<open>
  The special phase of \<^verbatim>\<open>generateFullSchedule\<close>: its entries, the messages that remain
  for the hourly engine and the start of the normal schedule. With the phase enabled and
  a \<^verbatim>\<open>presaleStartUtc\<close> that is missing or not a date, \<^verbatim>\<open>toISOString\<close> of the first
  countdown's time throws.
\<close>

definition specialPhaseEntries ::
  "runtime \<Rightarrow> double config \<Rightarrow> error + (event list \<times> int number \<times> string)" where
  "specialPhaseEntries rt cfg =
     (let totalNeeded = totalMessagesNeeded cfg
      in case specialPhase cfg of
           None \<Rightarrow> Inr ([], totalNeeded, startTimeUtc cfg)
         | Some sp \<Rightarrow>
             if \<not> enabled sp then Inr ([], totalNeeded, startTimeUtc cfg)
             else case presaleStartUtc sp of
                    None \<Rightarrow> Inl RangeError
                  | Some ps \<Rightarrow>
                      if \<not> validDate rt ps then Inl RangeError
                      else
                      let presaleStart = parseDate rt ps;
                          burstMinutes = (case initialBurstMinutes sp of
                                            None \<Rightarrow> 10 | Some m \<Rightarrow> if m = 0 then 10 else m);
                          burstCount = (case initialBurstCount sp of None \<Rightarrow> 0 | Some c \<Rightarrow> c);
                          countdowns =
                            map (\<lambda>(minutes, image).
                                   \<lparr>ev_at = presaleStart - minutes * 60000, ev_kind = Countdown,
                                    ev_text = Some (countdownText minutes), ev_image = Some image\<rparr>)
                              countdownMessages;
                          launch = \<lparr>ev_at = presaleStart, ev_kind = Start,
                                    ev_text = Some launchText, ev_image = Some ''live.png''\<rparr>
                      in if burstCount > 0
                         then let burstStart = presaleStart;
                                  burstSpanSec = burstMinutes * 60;
                                  secs = sampleUniqueSeconds rt burstCount burstSpanSec;
                                  buys = map (\<lambda>s. \<lparr>ev_at = burstStart + s * 1000, ev_kind = Buy,
                                                     ev_text = None, ev_image = None\<rparr>) secs
                              in Inr (countdowns @ [launch] @ buys,
                                      jsMinus totalNeeded (jsMin (Finite burstCount) totalNeeded),
                                      toISOString rt (burstStart + burstSpanSec * 1000))
                         else Inr (countdowns @ [launch], totalNeeded, toISOString rt presaleStart))"

text \<open>\<^verbatim>\<open>{ ...config, startTimeUtc: normalStartIso, targetTotalUsd: remainingMessages * amountPerMessage }\<close>\<close>

definition normalConfig :: "double config \<Rightarrow> string \<Rightarrow> int number \<Rightarrow> double config" where
  "normalConfig cfg normalStartIso remainingMessages =
     cfg\<lparr>startTimeUtc := normalStartIso,
         targetTotalUsd := jsTimes remainingMessages (amountPerMessageUsd cfg)\<rparr>"

text \<open>
  \<^verbatim>\<open>generateFullSchedule\<close> returns the merged entries, sorted by time (the sort of the
  source is stable, as \<open>sort_key\<close> is), and the effective end, kept as the time its ISO
  string denotes. It throws, or does not return, when its call of \<^verbatim>\<open>generateSchedule\<close>
  does.
\<close>

definition generateFullSchedule ::
  "runtime \<Rightarrow> double config \<Rightarrow> (error + (event list \<times> int)) option" where
  "generateFullSchedule rt cfg =
     (case specialPhaseEntries rt cfg of
        Inl e \<Rightarrow> Some (Inl e)
      | Inr (entries, remainingMessages, normalStartIso) \<Rightarrow>
          if jsLess (Finite 0) remainingMessages
          then (case generateSchedule rt (normalConfig cfg normalStartIso remainingMessages) of
                  None \<Rightarrow> None
                | Some (Inl e) \<Rightarrow> Some (Inl e)
                | Some (Inr g) \<Rightarrow>
                    let buys = map (\<lambda>isoTs. \<lparr>ev_at = isoTs, ev_kind = Buy,
                                              ev_text = None, ev_image = None\<rparr>)
                                 (g_schedule g)
                    in Some (Inr (sort_key ev_at (entries @ buys), g_effectiveEnd g)))
          else let sorted = sort_key ev_at entries;
                   lastAt = (if sorted \<noteq> [] then ev_at (last sorted)
                             else parseDate rt (startTimeUtc cfg))
               in Some (Inr (sorted, lastAt)))"

section \<open>getConfigSignature\<close>

text \<open>
  The values \<^verbatim>\<open>JSON.stringify\<close> meets in \<^verbatim>\<open>getConfigSignature\<close>, and its compact
  output. A property whose value is \<^verbatim>\<open>undefined\<close> is left out of the object, so an object
  is the list of the members that are present. Numbers are integers, printed in decimal.
\<close>

datatype json = JNull | JBool bool | JNumber int | JString string | JObject "(string \<times> json) list"

definition hexDigit :: "nat \<Rightarrow> char" where
  "hexDigit n = (if n < 10 then char_of (48 + n) else char_of (87 + n))"

text \<open>
  \<^verbatim>\<open>QuoteJSONString\<close>: the quotation mark (0x22) and the backslash (0x5C) are escaped
  with a backslash, a control character by its short escape or by \<^verbatim>\<open>\u00XX\<close>.
\<close>

definition escapeChar :: "char \<Rightarrow> string" where
  "escapeChar c =
     (if c = CHR 0x08 then [CHR 0x5C, CHR ''b'']
      else if c = CHR 0x09 then [CHR 0x5C, CHR ''t'']
      else if c = CHR 0x0A then [CHR 0x5C, CHR ''n'']
      else if c = CHR 0x0C then [CHR 0x5C, CHR ''f'']
      else if c = CHR 0x0D then [CHR 0x5C, CHR ''r'']
      else if c = CHR 0x22 then [CHR 0x5C, CHR 0x22]
      else if c = CHR 0x5C then [CHR 0x5C, CHR 0x5C]
      else if (of_char c :: nat) < 32
      then [CHR 0x5C, CHR ''u'', CHR ''0'', CHR ''0'',
            hexDigit ((of_char c :: nat) div 16), hexDigit ((of_char c :: nat) mod 16)]
      else [c])"

definition quoteJSONString :: "string \<Rightarrow> string" where
  "quoteJSONString s = CHR 0x22 # concat (map escapeChar s) @ [CHR 0x22]"

fun stringify :: "json \<Rightarrow> string" and stringifyMembers :: "(string \<times> json) list \<Rightarrow> string" where
  "stringify JNull = ''null''"
| "stringify (JBool b) = (if b then ''true'' else ''false'')"
| "stringify (JNumber n) = showInt n"
| "stringify (JString s) = quoteJSONString s"
| "stringify (JObject members) = ''{'' @ stringifyMembers members @ ''}''"
| "stringifyMembers [] = []"
| "stringifyMembers ((k, v) # rest) =
     quoteJSONString k @ '':'' @ stringify v @ (if rest = [] then [] else '','' @ stringifyMembers rest)"

text \<open>A property that is left out when its value is \<^verbatim>\<open>undefined\<close>.\<close>

definition optMember :: "string \<Rightarrow> json option \<Rightarrow> (string \<times> json) list" where
  "optMember k v = (case v of None \<Rightarrow> [] | Some j \<Rightarrow> [(k, j)])"

definition signatureObject :: "int config \<Rightarrow> json" where
  "signatureObject cfg =
     JObject
       [(''startTimeUtc'', JString (startTimeUtc cfg)),
        (''endTimeUtc'', JString (endTimeUtc cfg)),
        (''targetTotalUsd'', JNumber (targetTotalUsd cfg)),
        (''minPerHour'', JNumber (minPerHour cfg)),
        (''maxPerHour'', JNumber (maxPerHour cfg)),
        (''amountPerMessageUsd'', JNumber (amountPerMessageUsd cfg)),
        (''tokensPerHundred'', JNumber (tokensPerHundred cfg)),
        (''enforceHardStopAtEnd'', JBool (enforceHardStopAtEnd cfg)),
        (''specialPhase'',
           case specialPhase cfg of
             None \<Rightarrow> JNull
           | Some sp \<Rightarrow>
               JObject
                 ([(''enabled'', JBool (enabled sp))]
                  @ optMember ''countdownStartUtc'' (map_option JString (countdownStartUtc sp))
                  @ optMember ''presaleStartUtc'' (map_option JString (presaleStartUtc sp))
                  @ optMember ''initialBurstMinutes'' (map_option JNumber (initialBurstMinutes sp))
                  @ optMember ''initialBurstCount'' (map_option JNumber (initialBurstCount sp))))]"

definition getConfigSignature :: "int config \<Rightarrow> string" where
  "getConfigSignature cfg = stringify (signatureObject cfg)"

section \<open>Execution state and the dispatch loop\<close>

text \<open>
  An element of \<^verbatim>\<open>state.schedule\<close> is an ISO string (read as a buy) or an event object.
\<close>

datatype item = IsoString int | EventObject event

record state =
  configSignature :: string
  schedule :: "item list"
  effectiveEnd :: int
  sentCount :: nat
  totalUsdRaised :: int
  completed :: bool

text \<open>\<^verbatim>\<open>typeof raw === 'string' ? raw : raw.at\<close> and \<^verbatim>\<open>typeof raw === 'string' ? { kind: 'buy', at } : { ...raw }\<close>\<close>

fun itemAt :: "item \<Rightarrow> int" where
  "itemAt (IsoString isoTs) = isoTs"
| "itemAt (EventObject e) = ev_at e"

fun itemEvent :: "item \<Rightarrow> event" where
  "itemEvent (IsoString isoTs) = \<lparr>ev_at = isoTs, ev_kind = Buy, ev_text = None, ev_image = None\<rparr>"
| "itemEvent (EventObject e) = e"

text \<open>
  What one call of \<^verbatim>\<open>sendNextIfDue\<close> reads from outside: the corrected time
  \<^verbatim>\<open>internetNow\<close>, whether the Telegram request it awaits succeeds, and
  \<^verbatim>\<open>fs.existsSync\<close>.
\<close>

record tick =
  nowMs :: int
  sendOk :: bool
  existsSync :: "string \<Rightarrow> bool"

text \<open>
  The effects of a call, in order: a write of the state file, a Telegram request (with the
  cursor and the local \<^verbatim>\<open>nextEvent\<close> at the time of the request) and the timer that
  re-arms the check. The caption of a buy is built from the time, the new total and the
  token rate; a marker's caption is its text.
\<close>

datatype caption = BuyMessage int int int | MarkerText "string option"

datatype request = SendTelegramPhoto string caption | SendTelegramMessage caption

datatype action = WriteJsonFile state | Telegram nat event request | SetTimeout int

definition MAX_ALLOWED_DELAY_MS :: int where
  "MAX_ALLOWED_DELAY_MS = 30 * 1000"

text \<open>
  The \<^verbatim>\<open>while\<close> loop that skips past events. It ends either by returning from
  \<^verbatim>\<open>sendNextIfDue\<close> at the end of the schedule (\<open>Finished\<close>) or with the locals
  \<^verbatim>\<open>nextEvent\<close> and \<^verbatim>\<open>msUntil\<close> of the entry to look at (\<open>Pending\<close>). Only
  \<^verbatim>\<open>kind\<close> and \<^verbatim>\<open>at\<close> of \<^verbatim>\<open>nextEvent\<close> are refreshed after a skip.
\<close>

datatype skipped = Finished state "action list" | Pending state event int "action list"

function skipPast :: "int \<Rightarrow> state \<Rightarrow> event \<Rightarrow> int \<Rightarrow> action list \<Rightarrow> skipped" where
  "skipPast internetNow st nextEvent msUntil acts =
     (if msUntil < - MAX_ALLOWED_DELAY_MS \<and> sentCount st < length (schedule st)
      then
        let st1 = st\<lparr>sentCount := sentCount st + 1\<rparr>;
            acts1 = acts @ [WriteJsonFile st1]
        in if sentCount st1 \<ge> length (schedule st1)
           then let st2 = st1\<lparr>completed := True\<rparr>
                in Finished st2 (acts1 @ [WriteJsonFile st2])
           else
             let nr = schedule st1 ! sentCount st1;
                 ni = itemAt nr;
                 ne = itemEvent nr
             in skipPast internetNow st1 (nextEvent\<lparr>ev_kind := ev_kind ne, ev_at := ev_at ne\<rparr>)
                  (ni - internetNow) acts1
      else Pending st nextEvent msUntil acts)"
  by pat_completeness auto
termination
  by (relation "measure (\<lambda>(internetNow, st, nextEvent, msUntil, acts).
                           length (schedule st) - sentCount st)") auto

text \<open>A JavaScript string in a condition: \<^verbatim>\<open>undefined\<close> and the empty string are falsy.\<close>

definition truthy :: "string option \<Rightarrow> bool" where
  "truthy s = (case s of None \<Rightarrow> False | Some t \<Rightarrow> t \<noteq> [])"

text \<open>The request for a countdown or start marker.\<close>

definition markerRequest :: "tick \<Rightarrow> event \<Rightarrow> request" where
  "markerRequest tk nextEvent =
     (let msg0 = ev_text nextEvent;
          imagePath0 = (if truthy (ev_image nextEvent) then ev_image nextEvent else None);
          useDefault = (\<not> truthy msg0 \<and> ev_kind nextEvent = Start);
          msg = (if useDefault then Some launchText else msg0);
          imagePath = (if useDefault then Some ''live.png'' else imagePath0)
      in case imagePath of
           Some p \<Rightarrow> if existsSync tk p then SendTelegramPhoto p (MarkerText msg)
                     else SendTelegramMessage (MarkerText msg)
         | None \<Rightarrow> SendTelegramMessage (MarkerText msg))"

text \<open>
  The branch \<^verbatim>\<open>if (msUntil <= 0)\<close>: the \<^verbatim>\<open>try\<close> block sends and then advances the
  state and writes it; a request that throws leaves the block before the state is touched.
  Either way the check is re-armed after one second.
\<close>

definition dispatch :: "int config \<Rightarrow> tick \<Rightarrow> state \<Rightarrow> event \<Rightarrow> state \<times> action list" where
  "dispatch cfg tk st nextEvent =
     (case ev_kind nextEvent of
        Buy \<Rightarrow>
          let nextTotal = totalUsdRaised st + amountPerMessageUsd cfg;
              req = SendTelegramPhoto ''feed.png''
                      (BuyMessage (nowMs tk) nextTotal (tokensPerHundred cfg))
          in if sendOk tk
             then let st' = st\<lparr>sentCount := sentCount st + 1, totalUsdRaised := nextTotal\<rparr>
                  in (st', [Telegram (sentCount st) nextEvent req, WriteJsonFile st', SetTimeout 1000])
             else (st, [Telegram (sentCount st) nextEvent req, SetTimeout 1000])
      | OtherKind \<Rightarrow>
          let st' = st\<lparr>sentCount := sentCount st + 1\<rparr>
          in (st', [WriteJsonFile st', SetTimeout 1000])
      | _ \<Rightarrow>
          let req = markerRequest tk nextEvent
          in if sendOk tk
             then let st' = st\<lparr>sentCount := sentCount st + 1\<rparr>
                  in (st', [Telegram (sentCount st) nextEvent req, WriteJsonFile st', SetTimeout 1000])
             else (st, [Telegram (sentCount st) nextEvent req, SetTimeout 1000]))"

definition sendNextIfDue :: "int config \<Rightarrow> tick \<Rightarrow> state \<Rightarrow> state \<times> action list" where
  "sendNextIfDue cfg tk st =
     (if completed st then (st, [])
      else if sentCount st \<ge> length (schedule st)
      then let st' = st\<lparr>completed := True\<rparr> in (st', [WriteJsonFile st'])
      else
        let internetNow = nowMs tk;
            nextRaw = schedule st ! sentCount st;
            nextIso = itemAt nextRaw;
            nextEvent = itemEvent nextRaw;
            msUntil = nextIso - internetNow
        in case skipPast internetNow st nextEvent msUntil [] of
             Finished st' acts \<Rightarrow> (st', acts)
           | Pending st' nextEvent' msUntil' acts \<Rightarrow>
               if msUntil' \<le> 0
               then let (st'', acts') = dispatch cfg tk st' nextEvent' in (st'', acts @ acts')
               else (st', acts @ [SetTimeout (min msUntil' 5000)]))"


section \<open>main: loading, regenerating and trimming the state\<close>

definition loadOrGenerate :: "runtime \<Rightarrow> int config \<Rightarrow> state option \<Rightarrow> error + (state \<times> action list)" where
  "loadOrGenerate rt cfg persisted =
     (let configSig = getConfigSignature cfg;
          regenerate =
            (case generateFullSchedule rt (doubles cfg) of
               None \<Rightarrow> Inl NoReturn
             | Some (Inl e) \<Rightarrow> Inl e
             | Some (Inr (sched, effEnd)) \<Rightarrow>
                 let st = \<lparr>configSignature = configSig, schedule = map EventObject sched,
                           effectiveEnd = effEnd, sentCount = 0,
                           totalUsdRaised = startRaisedUsd cfg, completed = False\<rparr>
                 in Inr (st, [WriteJsonFile st]))
      in case persisted of
           None \<Rightarrow> regenerate
         | Some st \<Rightarrow> if configSignature st \<noteq> configSig then regenerate else Inr (st, []))"

text \<open>\<^verbatim>\<open>if (defaulted.enforceHardStopAtEnd) { state.schedule = state.schedule.filter(...) }\<close>\<close>

definition hardStopTrim :: "runtime \<Rightarrow> int config \<Rightarrow> state \<Rightarrow> state \<times> action list" where
  "hardStopTrim rt cfg st =
     (if enforceHardStopAtEnd cfg
      then let endTs = parseDate rt (endTimeUtc cfg);
               st' = st\<lparr>schedule := filter (\<lambda>item. itemAt item \<le> endTs) (schedule st)\<rparr>
           in (st', [WriteJsonFile st'])
      else (st, []))"

text \<open>\<^verbatim>\<open>main\<close> up to the first call of \<^verbatim>\<open>sendNextIfDue\<close>.\<close>

definition startup :: "runtime \<Rightarrow> int config \<Rightarrow> state option \<Rightarrow> error + (state \<times> action list)" where
  "startup rt cfg persisted =
     (if \<not> truthy (BOT_TOKEN cfg) \<or> \<not> truthy (TARGET_CHAT_ID cfg) then Inl MissingIdentity
      else case loadOrGenerate rt cfg persisted of
             Inl e \<Rightarrow> Inl e
           | Inr (st, acts) \<Rightarrow>
               let (st', acts') = hardStopTrim rt cfg st in Inr (st', acts @ acts'))"

section \<open>Auxiliary notions for the properties\<close>

text \<open>A list of effects that only writes the state file.\<close>

definition writesOnly :: "action list \<Rightarrow> bool" where
  "writesOnly acts = (\<forall>a \<in> set acts. \<exists>s. a = WriteJsonFile s)"







text \<open>
  The state stays within its plan: the cursor is at most the plan's length, and the
  completion flag is set only with the cursor at the end. Under a hard stop, a state is
  trimmed when no entry is after the end time.
\<close>

definition withinPlan :: "state \<Rightarrow> bool" where
  "withinPlan st =
     (sentCount st \<le> length (schedule st) \<and>
      (completed st \<longrightarrow> sentCount st = length (schedule st)))"

definition trimmed :: "runtime \<Rightarrow> int config \<Rightarrow> state \<Rightarrow> bool" where
  "trimmed rt cfg st =
     (enforceHardStopAtEnd cfg \<longrightarrow>
        list_all (\<lambda>item. itemAt item \<le> parseDate rt (endTimeUtc cfg)) (schedule st))"

text \<open>
  The execution states of a run under a fixed configuration: \<open>running\<close> holds of the
  state in memory between two calls of \<^verbatim>\<open>sendNextIfDue\<close>, \<open>persisted\<close> of every state
  written to the state file, from which a restarted process starts.
\<close>

inductive running :: "runtime \<Rightarrow> int config \<Rightarrow> state \<Rightarrow> bool"
  and persisted :: "runtime \<Rightarrow> int config \<Rightarrow> state \<Rightarrow> bool"
  for rt :: runtime and cfg :: "int config" where
  started: "startup rt cfg None = Inr (st, acts) \<Longrightarrow> running rt cfg st"
| restarted: "persisted rt cfg p \<Longrightarrow> startup rt cfg (Some p) = Inr (st, acts) \<Longrightarrow> running rt cfg st"
| called: "running rt cfg st \<Longrightarrow> sendNextIfDue cfg tk st = (st', acts) \<Longrightarrow> running rt cfg st'"
| written_at_start: "startup rt cfg None = Inr (st, acts) \<Longrightarrow> WriteJsonFile s \<in> set acts \<Longrightarrow>
     persisted rt cfg s"
| written_at_restart: "persisted rt cfg p \<Longrightarrow> startup rt cfg (Some p) = Inr (st, acts) \<Longrightarrow>
     WriteJsonFile s \<in> set acts \<Longrightarrow> persisted rt cfg s"
| written_in_call: "running rt cfg st \<Longrightarrow> sendNextIfDue cfg tk st = (st', acts) \<Longrightarrow>
     WriteJsonFile s \<in> set acts \<Longrightarrow> persisted rt cfg s"

section \<open>A sample run\<close>

text \<open>
  A configuration of one hour from 2025-01-01T00:00:00Z (1735689600000 ms) with a single
  message to place, and a state of two buys 30 seconds apart.
\<close>

definition sampleStart :: int where
  "sampleStart = 1735689600000"

definition sampleConfig :: "int config" where
  "sampleConfig =
     \<lparr>startTimeUtc = ''2025-01-01T00:00:00Z'', endTimeUtc = ''2025-01-01T01:00:00Z'',
      targetTotalUsd = 100, amountPerMessageUsd = 100, minPerHour = 0, maxPerHour = 60,
      tokensPerHundred = 714, startRaisedUsd = 0, enforceHardStopAtEnd = False,
      BOT_TOKEN = Some ''token'', TARGET_CHAT_ID = Some ''chat'', specialPhase = None\<rparr>"

text \<open>
  The runtime of the samples knows the dates of the configurations below and formats the
  times of 1 January 2025 as \<^verbatim>\<open>toISOString\<close> does. Every noise draw is one half, a
  shuffle reverses the indices, and the seconds picked in an hour are 5, 66, 127 and so on.
\<close>

definition twoDigits :: "int \<Rightarrow> string" where
  "twoDigits n = [digitChar (nat (n div 10)), digitChar (nat (n mod 10))]"

definition sampleISOString :: "int \<Rightarrow> string" where
  "sampleISOString t =
     (let ms = t - sampleStart
      in ''2025-01-01T'' @ twoDigits (ms div 3600000) @ '':'' @ twoDigits (ms div 60000 mod 60)
         @ '':'' @ twoDigits (ms div 1000 mod 60) @ ''.''
         @ [digitChar (nat (ms mod 1000 div 100))] @ twoDigits (ms mod 100) @ ''Z'')"

definition sampleDates :: "(string \<times> int) list" where
  "sampleDates =
     [(''2025-01-01T00:00:00Z'', sampleStart),
      (''2025-01-01T01:00:00Z'', sampleStart + 3600000),
      (''2025-01-01T02:00:00Z'', sampleStart + 7200000),
      (''2025-01-01T03:00:00Z'', sampleStart + 10800000),
      (''2025-01-01T00:00:00.000Z'', sampleStart),
      (''2025-01-01T00:10:00.000Z'', sampleStart + 600000)]"

definition sampleRuntime :: runtime where
  "sampleRuntime =
     \<lparr>validDate = (\<lambda>s. s \<in> fst ` set sampleDates),
      parseDate = (\<lambda>s. case map_of sampleDates s of Some t \<Rightarrow> t | None \<Rightarrow> 0),
      toISOString = sampleISOString,
      random = (\<lambda>i. 1 / 2),
      shuffle = (\<lambda>k xs. rev xs),
      pickSeconds = (\<lambda>h cnt. map (\<lambda>k. 5 + 61 * k) [0..cnt - 1]),
      pickBurst = (\<lambda>cnt mx. [0..cnt - 1])\<rparr>"

definition sampleBuy :: "int \<Rightarrow> item" where
  "sampleBuy t = EventObject \<lparr>ev_at = t, ev_kind = Buy, ev_text = None, ev_image = None\<rparr>"


definition sampleTick :: "int \<Rightarrow> bool \<Rightarrow> tick" where
  "sampleTick t ok = \<lparr>nowMs = t, sendOk = ok, existsSync = (\<lambda>p. True)\<rparr>"


text \<open>The state \<^verbatim>\<open>main\<close> generates for the sample configuration: one buy, five seconds in.\<close>

definition sampleFresh :: state where
  "sampleFresh =
     \<lparr>configSignature = getConfigSignature sampleConfig,
      schedule = [sampleBuy (sampleStart + 5000)],
      effectiveEnd = sampleStart + 3600000, sentCount = 0, totalUsdRaised = 0,
      completed = False\<rparr>"

text \<open>
  A state whose plan holds the last two countdown markers of a special phase that starts
  at the sample start: two minutes and one minute before it.
\<close>

definition sampleMarkers :: state where
  "sampleMarkers =
     \<lparr>configSignature = getConfigSignature sampleConfig,
      schedule =
        [EventObject \<lparr>ev_at = sampleStart - 120000, ev_kind = Countdown,
                      ev_text = Some (countdownText 2), ev_image = Some ''2.png''\<rparr>,
         EventObject \<lparr>ev_at = sampleStart - 60000, ev_kind = Countdown,
                      ev_text = Some (countdownText 1), ev_image = Some ''1.png''\<rparr>],
      effectiveEnd = sampleStart, sentCount = 0, totalUsdRaised = 0, completed = False\<rparr>"

text \<open>
  Configurations for the generator. The fractional configuration asks for 2899 at 99.99
  per message, each amount the double nearest to its decimal.
\<close>

definition fractionalConfig :: "double config" where
  "fractionalConfig =
     (doubles sampleConfig)\<lparr>targetTotalUsd := doubleOf 2899, amountPerMessageUsd := doubleOf (9999 / 100)\<rparr>"

text \<open>
  Two hours from midnight with a hundred messages to place, and the weights of these two
  hours under the sample runtime: the first hour of a Wednesday has the diurnal factor
  \<open>0.95 + 0.35 * sin (pi / 6)\<close>, the second \<open>0.95 + 0.35 * sin (pi / 4)\<close>.
\<close>

definition twoHourConfig :: "double config" where
  "twoHourConfig =
     (doubles sampleConfig)\<lparr>endTimeUtc := ''2025-01-01T02:00:00Z'', targetTotalUsd := Finite 10000\<rparr>"

definition firstWeight :: real where
  "firstWeight = 9 / 8 * (21 / 20) * (21 / 20)"

definition secondWeight :: real where
  "secondWeight = (19 / 20 + 7 / 20 * (sqrt 2 / 2)) * (21 / 20) * (21 / 20)"

text \<open>
  Three hours from midnight, and the weight of the third: its diurnal factor is
  \<open>0.95 + 0.35 * sin (pi / 3)\<close>.
\<close>

definition threeHourConfig :: "double config" where
  "threeHourConfig =
     (doubles sampleConfig)\<lparr>endTimeUtc := ''2025-01-01T03:00:00Z'', targetTotalUsd := Finite 10000\<rparr>"

definition thirdWeight :: real where
  "thirdWeight = (19 / 20 + 7 / 20 * (sqrt 3 / 2)) * (21 / 20) * (21 / 20)"

text \<open>
  A launch at the sample start with three messages to place, \<open>burst\<close> of them in the
  first ten minutes, and the entries of its special phase: the countdowns, the start
  marker and the buys of the burst, one per second.
\<close>

definition launchPhase :: "int \<Rightarrow> specialPhase" where
  "launchPhase burst =
     \<lparr>enabled = True, countdownStartUtc = None, presaleStartUtc = Some ''2025-01-01T00:00:00Z'',
      initialBurstMinutes = None, initialBurstCount = Some burst\<rparr>"

definition launchConfig :: "int \<Rightarrow> double config" where
  "launchConfig burst =
     (doubles sampleConfig)\<lparr>targetTotalUsd := Finite 300, specialPhase := Some (launchPhase burst)\<rparr>"

definition launchEntries :: "int \<Rightarrow> event list" where
  "launchEntries burst =
     map (\<lambda>(minutes, image).
            \<lparr>ev_at = sampleStart - minutes * 60000, ev_kind = Countdown,
             ev_text = Some (countdownText minutes), ev_image = Some image\<rparr>) countdownMessages
     @ [\<lparr>ev_at = sampleStart, ev_kind = Start, ev_text = Some launchText, ev_image = Some ''live.png''\<rparr>]
     @ map (\<lambda>s. \<lparr>ev_at = sampleStart + s * 1000, ev_kind = Buy, ev_text = None, ev_image = None\<rparr>)
         [0..burst - 1]"

section \<open>Properties of enforceUniqueIntervals\<close>


lemma tryCandidates_Some:
  "tryCandidates us used hs prev cands = Some (ts, d) \<Longrightarrow> \<exists>s \<in> set cands. ts = hs + s * 1000"
  by (induction cands) (auto simp: Let_def split: if_splits)

lemma radiusSearch_Some:
  "radiusSearch us used hs prev b lb ub rs = Some (ts, d) \<Longrightarrow> \<forall>r \<in> set rs. 1 \<le> r \<Longrightarrow>
   \<exists>s. ts = hs + s * 1000 \<and> ((b < s \<and> s \<le> ub) \<or> (s < b \<and> lb \<le> s))"
proof (induction rs)
  case Nil
  then show ?case by simp
next
  case (Cons r rs)
  show ?case
  proof (cases "tryCandidates us used hs prev ((if b + r \<le> ub then [b + r] else []) @ (if b - r \<ge> lb then [b - r] else []))")
    case None
    with Cons show ?thesis by (simp add: Let_def)
  next
    case (Some f)
    with Cons.prems have eq: "tryCandidates us used hs prev ((if b + r \<le> ub then [b + r] else []) @ (if b - r \<ge> lb then [b - r] else [])) = Some (ts, d)"
      by (simp add: Let_def)
    from tryCandidates_Some[OF eq] Cons.prems(2) show ?thesis
      by (auto split: if_splits)
  qed
qed

lemma floorToHourTs_le: "floorToHourTs t \<le> t"
  unfolding floorToHourTs_def by simp

lemma secondOfHour_bounds:
  "secondOfHour t * 1000 \<le> t - floorToHourTs t" "t - floorToHourTs t < secondOfHour t * 1000 + 1000"
  unfolding secondOfHour_def by simp_all

lemma ceilSec_ge: "x \<le> ceilSec x * 1000"
  unfolding ceilSec_def by simp

lemma floorSec_le: "floorSec x * 1000 \<le> x"
  unfolding floorSec_def by simp

lemma strict_update:
  assumes "sorted_wrt (<) (xs :: int list)" "i < length xs"
    and "0 < i \<longrightarrow> xs ! (i - 1) < v" and "Suc i < length xs \<longrightarrow> v < xs ! Suc i"
  shows "sorted_wrt (<) (xs[i := v])"
proof -
  have adj: "\<And>k. Suc k < length xs \<Longrightarrow> xs ! k < xs ! Suc k"
    using assms(1) by (simp add: sorted_wrt_iff_nth_less)
  have "\<And>k. Suc k < length (xs[i := v]) \<Longrightarrow> (xs[i := v]) ! k < (xs[i := v]) ! Suc k"
  proof -
    fix k assume k: "Suc k < length (xs[i := v])"
    consider "k = i" | "Suc k = i" | "k \<noteq> i \<and> Suc k \<noteq> i" by blast
    then show "(xs[i := v]) ! k < (xs[i := v]) ! Suc k"
    proof cases
      case 1 then show ?thesis using assms k by simp
    next
      case 2 then show ?thesis using assms k by auto
    next
      case 3 then show ?thesis using adj k by simp
    qed
  qed
  then show ?thesis
    by (simp add: sorted_wrt_iff_nth_Suc_transp)
qed

lemma adjustAt_length: "length (timesMs (adjustAt i st)) = length (timesMs st)"
  unfolding adjustAt_def by (simp add: Let_def)

lemma adjustAt_sorted:
  assumes srt: "sorted_wrt (<) (timesMs st)" and i1: "1 \<le> i" and iN: "i < length (timesMs st)"
  shows "sorted_wrt (<) (timesMs (adjustAt i st))"
proof -
  define prev where "prev = timesMs st ! (i - 1)"
  define curr where "curr = timesMs st ! i"
  define hs where "hs = floorToHourTs curr"
  define lb where "lb = max hs (prev + 1000)"
  define ub where "ub = (if i + 1 < length (timesMs st) then min (hs + 3600000 - 1) (timesMs st ! (i + 1) - 1000) else hs + 3600000 - 1)"
  define us where "us = (case hourToSeconds st hs of None \<Rightarrow> {} | Some s \<Rightarrow> s) - {secondOfHour curr}"
  define found where "found = (case radiusSearch us (usedIntervals st) hs prev (secondOfHour curr) (ceilSec (lb - hs)) (floorSec (ub - hs)) [1..radiusLimit] of
                         Some f \<Rightarrow> Some f
                       | None \<Rightarrow> tryCandidates us (usedIntervals st) hs prev [ceilSec (lb - hs)..floorSec (ub - hs)])"
  define curr' where "curr' = (case found of Some (candTs, candDelta) \<Rightarrow> candTs | None \<Rightarrow> curr)"
  have pc: "prev < curr"
    using srt i1 iN unfolding prev_def curr_def by (simp add: sorted_wrt_iff_nth_less)
  have cn: "Suc i < length (timesMs st) \<Longrightarrow> curr < timesMs st ! Suc i"
    using srt unfolding curr_def by (simp add: sorted_wrt_iff_nth_less)
  have ubn: "Suc i < length (timesMs st) \<Longrightarrow> ub \<le> timesMs st ! Suc i - 1000"
    unfolding ub_def by simp
  have between: "prev < curr' \<and> (Suc i < length (timesMs st) \<longrightarrow> curr' < timesMs st ! Suc i)"
  proof (cases found)
    case None
    then show ?thesis using pc cn by (simp add: curr'_def)
  next
    case (Some f)
    obtain ts d where f: "f = (ts, d)" by (cases f)
    have c': "curr' = ts" using Some f by (simp add: curr'_def)
    have "\<exists>s. ts = hs + s * 1000 \<and>
            ((secondOfHour curr < s \<and> s \<le> floorSec (ub - hs)) \<or> (ceilSec (lb - hs) \<le> s \<and> s < secondOfHour curr)
             \<or> (ceilSec (lb - hs) \<le> s \<and> s \<le> floorSec (ub - hs)))"
    proof (cases "radiusSearch us (usedIntervals st) hs prev (secondOfHour curr) (ceilSec (lb - hs)) (floorSec (ub - hs)) [1..radiusLimit]")
      case None
      with Some f have "tryCandidates us (usedIntervals st) hs prev [ceilSec (lb - hs)..floorSec (ub - hs)] = Some (ts, d)"
        by (simp add: found_def)
      from tryCandidates_Some[OF this] show ?thesis by auto
    next
      case (Some g)
      with \<open>found = Some f\<close> f have "radiusSearch us (usedIntervals st) hs prev (secondOfHour curr) (ceilSec (lb - hs)) (floorSec (ub - hs)) [1..radiusLimit] = Some (ts, d)"
        by (simp add: found_def)
      from radiusSearch_Some[OF this] show ?thesis by auto
    qed
    then obtain s where s: "ts = hs + s * 1000"
      and cases3: "(secondOfHour curr < s \<and> s \<le> floorSec (ub - hs)) \<or> (ceilSec (lb - hs) \<le> s \<and> s < secondOfHour curr)
             \<or> (ceilSec (lb - hs) \<le> s \<and> s \<le> floorSec (ub - hs))" by blast
    have h1: "secondOfHour curr * 1000 \<le> curr - hs" "curr - hs < secondOfHour curr * 1000 + 1000"
      using secondOfHour_bounds[of curr] by (simp_all add: hs_def)
    have h2: "lb - hs \<le> ceilSec (lb - hs) * 1000" by (rule ceilSec_ge)
    have h3: "floorSec (ub - hs) * 1000 \<le> ub - hs" by (rule floorSec_le)
    have h4: "prev + 1000 \<le> lb" by (simp add: lb_def)
    from cases3 have "prev < ts \<and> (ts \<le> ub \<or> ts < curr)"
    proof (elim disjE conjE)
      assume a: "secondOfHour curr < s" "s \<le> floorSec (ub - hs)"
      then have "secondOfHour curr * 1000 + 1000 \<le> s * 1000" "s * 1000 \<le> floorSec (ub - hs) * 1000" by simp_all
      with h1 h3 pc s have "prev < ts" "ts \<le> ub" by linarith+
      then show ?thesis by simp
    next
      assume a: "ceilSec (lb - hs) \<le> s" "s < secondOfHour curr"
      then have "ceilSec (lb - hs) * 1000 \<le> s * 1000" "s * 1000 + 1000 \<le> secondOfHour curr * 1000" by simp_all
      with h1 h2 h4 s have "prev < ts" "ts < curr" by linarith+
      then show ?thesis by simp
    next
      assume a: "ceilSec (lb - hs) \<le> s" "s \<le> floorSec (ub - hs)"
      then have "ceilSec (lb - hs) * 1000 \<le> s * 1000" "s * 1000 \<le> floorSec (ub - hs) * 1000" by simp_all
      with h2 h3 h4 s have "prev < ts" "ts \<le> ub" by linarith+
      then show ?thesis by simp
    qed
    with c' cn ubn show ?thesis by auto
  qed
  have upd: "sorted_wrt (<) ((timesMs st)[i := curr'])"
    using strict_update[OF srt iN, of curr'] between i1 by (simp add: prev_def)
  show ?thesis
    using srt upd
    unfolding adjustAt_def Let_def curr'_def found_def us_def ub_def lb_def hs_def curr_def prev_def
    by (simp split: if_splits)
qed

lemma foldl_adjust_inv:
  assumes "sorted_wrt (<) (timesMs st)" "\<forall>i \<in> set is. 1 \<le> i \<and> i < length (timesMs st)"
  shows "sorted_wrt (<) (timesMs (foldl (\<lambda>st i. adjustAt i st) st is)) \<and>
         length (timesMs (foldl (\<lambda>st i. adjustAt i st) st is)) = length (timesMs st)"
  using assms
proof (induction "is" arbitrary: st)
  case Nil
  then show ?case by simp
next
  case (Cons i "is")
  have "sorted_wrt (<) (timesMs (adjustAt i st))"
    using Cons.prems by (intro adjustAt_sorted) auto
  moreover have "\<forall>j \<in> set is. 1 \<le> j \<and> j < length (timesMs (adjustAt i st))"
    using Cons.prems by (simp add: adjustAt_length)
  ultimately show ?case
    using Cons.IH[of "adjustAt i st"] by (simp add: adjustAt_length)
qed

text \<open>
  Claim C2. For every strictly increasing list of timestamps, the output of
  \<^verbatim>\<open>enforceUniqueIntervals\<close> has as many elements as the input and is strictly
  increasing: every element from the second on is greater than the one before it.
\<close>

theorem enforceUniqueIntervals_strictly_increasing:
  assumes "sorted_wrt (<) scheduleIsoArray"
  shows "length (enforceUniqueIntervals scheduleIsoArray) = length scheduleIsoArray \<and>
         (\<forall>i. 1 \<le> i \<and> i < length (enforceUniqueIntervals scheduleIsoArray) \<longrightarrow>
              enforceUniqueIntervals scheduleIsoArray ! i > enforceUniqueIntervals scheduleIsoArray ! (i - 1))"
proof (cases "length scheduleIsoArray \<le> 1")
  case True
  then show ?thesis by (simp add: enforceUniqueIntervals_def)
next
  case False
  let ?st0 = "\<lparr>timesMs = scheduleIsoArray, usedIntervals = {},
               hourToSeconds = initHourSeconds scheduleIsoArray Map.empty\<rparr>"
  have "sorted_wrt (<) (timesMs (foldl (\<lambda>st i. adjustAt i st) ?st0 [1..<length scheduleIsoArray])) \<and>
        length (timesMs (foldl (\<lambda>st i. adjustAt i st) ?st0 [1..<length scheduleIsoArray])) = length (timesMs ?st0)"
    by (rule foldl_adjust_inv) (use assms in auto)
  with False show ?thesis
    by (auto simp: enforceUniqueIntervals_def sorted_wrt_iff_nth_less)
qed

text \<open>The theorem of claim C2 at the input of five timestamps one second apart.\<close>

theorem enforceUniqueIntervals_witness:
  "sorted_wrt (<) [0, 1000, 2000, 3000, 4000 :: int] \<and>
   length (enforceUniqueIntervals [0, 1000, 2000, 3000, 4000]) = 5 \<and>
   enforceUniqueIntervals [0, 1000, 2000, 3000, 4000] ! 1 > enforceUniqueIntervals [0, 1000, 2000, 3000, 4000] ! 0 \<and>
   enforceUniqueIntervals [0, 1000, 2000, 3000, 4000] ! 4 > enforceUniqueIntervals [0, 1000, 2000, 3000, 4000] ! 3"
proof -
  have inc: "sorted_wrt (<) [0, 1000, 2000, 3000, 4000 :: int]"
    by simp
  note out = enforceUniqueIntervals_strictly_increasing [OF inc]
  from out have len: "length (enforceUniqueIntervals [0, 1000, 2000, 3000, 4000]) = 5"
    by simp
  from out have step: "\<And>i. 1 \<le> i \<Longrightarrow> i < length (enforceUniqueIntervals [0, 1000, 2000, 3000, 4000]) \<Longrightarrow>
      enforceUniqueIntervals [0, 1000, 2000, 3000, 4000] ! i
        > enforceUniqueIntervals [0, 1000, 2000, 3000, 4000] ! (i - 1)"
    by blast
  have "enforceUniqueIntervals [0, 1000, 2000, 3000, 4000] ! 1
      > enforceUniqueIntervals [0, 1000, 2000, 3000, 4000] ! (1 - 1)"
    by (rule step) (simp_all add: len)
  moreover have "enforceUniqueIntervals [0, 1000, 2000, 3000, 4000] ! 4
      > enforceUniqueIntervals [0, 1000, 2000, 3000, 4000] ! (4 - 1)"
    by (rule step) (simp_all add: len)
  ultimately show ?thesis
    using inc len by simp
qed

section \<open>Properties of the dispatch loop\<close>


declare skipPast.simps [simp del]

lemma skipPast_fresh:
  "\<not> (ms < - 30000 \<and> sentCount st < length (schedule st)) \<Longrightarrow>
   skipPast nw st ev ms acts = Pending st ev ms acts"
  by (subst skipPast.simps) (auto simp: MAX_ALLOWED_DELAY_MS_def)

lemma skipPast_last:
  "ms < - 30000 \<Longrightarrow> Suc (sentCount st) = length (schedule st) \<Longrightarrow>
   skipPast nw st ev ms acts =
     Finished (st\<lparr>sentCount := Suc (sentCount st), completed := True\<rparr>)
       (acts @ [WriteJsonFile (st\<lparr>sentCount := Suc (sentCount st)\<rparr>),
                WriteJsonFile (st\<lparr>sentCount := Suc (sentCount st), completed := True\<rparr>)])"
  by (subst skipPast.simps) (simp add: MAX_ALLOWED_DELAY_MS_def Let_def)

lemma skipPast_step:
  "ms < - 30000 \<Longrightarrow> Suc (sentCount st) < length (schedule st) \<Longrightarrow>
   skipPast nw st ev ms acts =
     skipPast nw (st\<lparr>sentCount := Suc (sentCount st)\<rparr>)
       (ev\<lparr>ev_kind := ev_kind (itemEvent (schedule st ! Suc (sentCount st))),
           ev_at := ev_at (itemEvent (schedule st ! Suc (sentCount st)))\<rparr>)
       (itemAt (schedule st ! Suc (sentCount st)) - nw)
       (acts @ [WriteJsonFile (st\<lparr>sentCount := Suc (sentCount st)\<rparr>)])"
  by (subst skipPast.simps) (simp add: MAX_ALLOWED_DELAY_MS_def Let_def)

lemma ev_at_itemEvent: "ev_at (itemEvent x) = itemAt x"
  by (cases x) simp_all

lemma skipPast_Finished:
  "skipPast nw st ev ms acts = Finished st' acts' \<Longrightarrow>
   st' = st\<lparr>sentCount := length (schedule st), completed := True\<rparr> \<and>
   sentCount st < length (schedule st) \<and>
   (\<exists>new. acts' = acts @ new \<and> writesOnly new)"
proof (induction nw st ev ms acts rule: skipPast.induct)
  case (1 nw st ev ms acts)
  consider (fresh) "\<not> (ms < - 30000 \<and> sentCount st < length (schedule st))"
    | (last) "ms < - 30000" "Suc (sentCount st) = length (schedule st)"
    | (step) "ms < - 30000" "Suc (sentCount st) < length (schedule st)"
    by linarith
  then show ?case
  proof cases
    case fresh
    with "1.prems" show ?thesis by (simp add: skipPast_fresh)
  next
    case last
    with "1.prems" show ?thesis by (auto simp: skipPast_last writesOnly_def)
  next
    case step
    let ?st1 = "st\<lparr>sentCount := sentCount st + 1\<rparr>"
    let ?acts1 = "acts @ [WriteJsonFile ?st1]"
    have "st' = ?st1\<lparr>sentCount := length (schedule ?st1), completed := True\<rparr> \<and>
          sentCount ?st1 < length (schedule ?st1) \<and> (\<exists>new. acts' = ?acts1 @ new \<and> writesOnly new)"
      using step "1.prems"
      by (intro "1.IH"[OF _ refl refl _ refl refl refl])
         (simp_all add: MAX_ALLOWED_DELAY_MS_def skipPast_step ev_at_itemEvent)
    then show ?thesis
      by (auto simp: writesOnly_def)
  qed
qed

lemma skipPast_Pending:
  "skipPast nw st ev ms acts = Pending st' ev' ms' acts' \<Longrightarrow>
   st' = st\<lparr>sentCount := sentCount st'\<rparr> \<and> sentCount st \<le> sentCount st' \<and>
   (sentCount st < length (schedule st) \<longrightarrow> sentCount st' < length (schedule st)) \<and>
   (\<exists>new. acts' = acts @ new \<and> writesOnly new)"
proof (induction nw st ev ms acts rule: skipPast.induct)
  case (1 nw st ev ms acts)
  consider (fresh) "\<not> (ms < - 30000 \<and> sentCount st < length (schedule st))"
    | (last) "ms < - 30000" "Suc (sentCount st) = length (schedule st)"
    | (step) "ms < - 30000" "Suc (sentCount st) < length (schedule st)"
    by linarith
  then show ?case
  proof cases
    case fresh
    with "1.prems" show ?thesis by (auto simp: skipPast_fresh writesOnly_def)
  next
    case last
    with "1.prems" show ?thesis by (simp add: skipPast_last)
  next
    case step
    let ?st1 = "st\<lparr>sentCount := sentCount st + 1\<rparr>"
    let ?acts1 = "acts @ [WriteJsonFile ?st1]"
    have "st' = ?st1\<lparr>sentCount := sentCount st'\<rparr> \<and> sentCount ?st1 \<le> sentCount st' \<and>
          (sentCount ?st1 < length (schedule ?st1) \<longrightarrow> sentCount st' < length (schedule ?st1)) \<and>
          (\<exists>new. acts' = ?acts1 @ new \<and> writesOnly new)"
      using step "1.prems"
      by (intro "1.IH"[OF _ refl refl _ refl refl refl])
         (simp_all add: MAX_ALLOWED_DELAY_MS_def skipPast_step ev_at_itemEvent)
    then show ?thesis
      using step by (auto simp: writesOnly_def)
  qed
qed



text \<open>Skipping a run of stale entries leads to the loop's state at the first entry after it.\<close>

lemma skipPast_reach:
  assumes "sentCount st \<le> i" and "i < length (schedule st)"
    and "\<forall>j. sentCount st \<le> j \<and> j < i \<longrightarrow> 30000 < nw - itemAt (schedule st ! j)"
    and "ms = itemAt (schedule st ! sentCount st) - nw"
    and "ev_at ev = itemAt (schedule st ! sentCount st)"
    and "ev_kind ev = ev_kind (itemEvent (schedule st ! sentCount st))"
  shows "\<exists>ev' new. skipPast nw st ev ms acts =
            skipPast nw (st\<lparr>sentCount := i\<rparr>) ev' (itemAt (schedule st ! i) - nw) (acts @ new) \<and>
          ev_at ev' = itemAt (schedule st ! i) \<and>
          ev_kind ev' = ev_kind (itemEvent (schedule st ! i)) \<and>
          (i = sentCount st \<longrightarrow> ev' = ev) \<and> writesOnly new"
  using assms(1,2,3)
proof (induction i rule: dec_induct)
  case base
  have "skipPast nw st ev ms acts =
          skipPast nw (st\<lparr>sentCount := sentCount st\<rparr>) ev (itemAt (schedule st ! sentCount st) - nw) (acts @ [])"
    using assms(4) by simp
  with assms(5,6) show ?case
    unfolding writesOnly_def by (metis empty_iff list.set(1))
next
  case (step n)
  from step.prems step.hyps have "n < length (schedule st)"
    and stale_n: "30000 < nw - itemAt (schedule st ! n)"
    and "\<forall>j. sentCount st \<le> j \<and> j < n \<longrightarrow> 30000 < nw - itemAt (schedule st ! j)"
    by auto
  with step.IH obtain ev1 new1 where
    eq1: "skipPast nw st ev ms acts =
            skipPast nw (st\<lparr>sentCount := n\<rparr>) ev1 (itemAt (schedule st ! n) - nw) (acts @ new1)"
    and w1: "writesOnly new1"
    by blast
  let ?stn = "st\<lparr>sentCount := n\<rparr>"
  have eq2: "skipPast nw ?stn ev1 (itemAt (schedule st ! n) - nw) (acts @ new1) =
     skipPast nw (?stn\<lparr>sentCount := Suc (sentCount ?stn)\<rparr>)
       (ev1\<lparr>ev_kind := ev_kind (itemEvent (schedule ?stn ! Suc (sentCount ?stn))),
            ev_at := ev_at (itemEvent (schedule ?stn ! Suc (sentCount ?stn)))\<rparr>)
       (itemAt (schedule ?stn ! Suc (sentCount ?stn)) - nw)
       ((acts @ new1) @ [WriteJsonFile (?stn\<lparr>sentCount := Suc (sentCount ?stn)\<rparr>)])"
    using stale_n step.prems(1) by (intro skipPast_step) simp_all
  have "skipPast nw st ev ms acts =
          skipPast nw (st\<lparr>sentCount := Suc n\<rparr>)
            (ev1\<lparr>ev_kind := ev_kind (itemEvent (schedule st ! Suc n)),
                 ev_at := ev_at (itemEvent (schedule st ! Suc n))\<rparr>)
            (itemAt (schedule st ! Suc n) - nw)
            (acts @ (new1 @ [WriteJsonFile (st\<lparr>sentCount := Suc n\<rparr>)]))"
    using eq1 eq2 by simp
  moreover have "writesOnly (new1 @ [WriteJsonFile (st\<lparr>sentCount := Suc n\<rparr>)])"
    using w1 by (auto simp: writesOnly_def)
  moreover have "Suc n \<noteq> sentCount st" using step.hyps by simp
  ultimately show ?case
    by (intro exI[of _ "ev1\<lparr>ev_kind := ev_kind (itemEvent (schedule st ! Suc n)),
                 ev_at := ev_at (itemEvent (schedule st ! Suc n))\<rparr>"]
              exI[of _ "new1 @ [WriteJsonFile (st\<lparr>sentCount := Suc n\<rparr>)]"])
       (simp add: ev_at_itemEvent)
qed


lemma dispatch_telegram:
  "dispatch cfg tk st ev = (st', acts) \<Longrightarrow> Telegram j e r \<in> set acts \<Longrightarrow> j = sentCount st \<and> e = ev"
  by (cases "ev_kind ev") (auto simp: dispatch_def Let_def split: if_splits)

lemma dispatch_state:
  "dispatch cfg tk st ev = (st', acts) \<Longrightarrow>
   schedule st' = schedule st \<and> configSignature st' = configSignature st \<and>
   effectiveEnd st' = effectiveEnd st \<and> completed st' = completed st \<and>
   sentCount st \<le> sentCount st' \<and> sentCount st' \<le> Suc (sentCount st)"
  by (cases "ev_kind ev") (auto simp: dispatch_def Let_def split: if_splits)

lemma dispatch_known:
  "ev_kind ev \<noteq> OtherKind \<Longrightarrow> dispatch cfg tk st ev = (st', acts) \<Longrightarrow>
   (\<exists>req. Telegram (sentCount st) ev req \<in> set acts) \<and>
   sentCount st' = (if sendOk tk then Suc (sentCount st) else sentCount st)"
  by (cases "ev_kind ev") (auto simp: dispatch_def Let_def split: if_splits)

lemma sendNextIfDue_unfold:
  "\<not> completed st \<Longrightarrow> sentCount st < length (schedule st) \<Longrightarrow>
   sendNextIfDue cfg tk st =
     (case skipPast (nowMs tk) st (itemEvent (schedule st ! sentCount st))
             (itemAt (schedule st ! sentCount st) - nowMs tk) [] of
        Finished st' acts \<Rightarrow> (st', acts)
      | Pending st' nextEvent' msUntil' acts \<Rightarrow>
          if msUntil' \<le> 0
          then let (st'', acts') = dispatch cfg tk st' nextEvent' in (st'', acts @ acts')
          else (st', acts @ [SetTimeout (min msUntil' 5000)]))"
  by (simp add: sendNextIfDue_def Let_def)

lemma writesOnly_no_telegram: "writesOnly acts \<Longrightarrow> Telegram j e r \<notin> set acts"
  by (auto simp: writesOnly_def)

text \<open>What a call does once the skip loop stands at index \<open>i\<close> with effects \<open>new\<close> so far.\<close>

lemma after_skip_stale:
  assumes stale: "30000 < nw - itemAt (schedule st ! i)" and il: "i < length (schedule st)"
    and w: "writesOnly new"
    and r: "skipPast nw (st\<lparr>sentCount := i\<rparr>) ev (itemAt (schedule st ! i) - nw) new = r"
  shows "case r of
           Finished st' acts \<Rightarrow> i < sentCount st' \<and> writesOnly acts \<and>
             WriteJsonFile (st\<lparr>sentCount := i + 1\<rparr>) \<in> set acts
         | Pending st' ev' ms' acts \<Rightarrow> i < sentCount st' \<and> writesOnly acts \<and>
             WriteJsonFile (st\<lparr>sentCount := i + 1\<rparr>) \<in> set acts"
proof (cases "Suc i = length (schedule st)")
  case True
  with stale have "r = Finished (st\<lparr>sentCount := Suc i, completed := True\<rparr>)
       (new @ [WriteJsonFile (st\<lparr>sentCount := Suc i\<rparr>),
               WriteJsonFile (st\<lparr>sentCount := Suc i, completed := True\<rparr>)])"
    using skipPast_last[of "itemAt (schedule st ! i) - nw" "st\<lparr>sentCount := i\<rparr>" nw ev new] r
    by simp
  with w show ?thesis by (auto simp: writesOnly_def)
next
  case False
  with il have lt: "Suc i < length (schedule st)" by simp
  let ?st1 = "st\<lparr>sentCount := Suc i\<rparr>"
  let ?acts1 = "new @ [WriteJsonFile ?st1]"
  obtain ev1 ms1 where r1: "r = skipPast nw ?st1 ev1 ms1 ?acts1"
    using skipPast_step[of "itemAt (schedule st ! i) - nw" "st\<lparr>sentCount := i\<rparr>" nw ev new] r stale lt
    by simp
  show ?thesis
  proof (cases r)
    case (Finished st' acts)
    with r1 have "skipPast nw ?st1 ev1 ms1 ?acts1 = Finished st' acts" by simp
    from skipPast_Finished[OF this] w lt show ?thesis
      unfolding Finished by (auto simp: writesOnly_def)
  next
    case (Pending st' ev' ms' acts)
    with r1 have "skipPast nw ?st1 ev1 ms1 ?acts1 = Pending st' ev' ms' acts" by simp
    from skipPast_Pending[OF this] w lt show ?thesis
      unfolding Pending by (auto simp: writesOnly_def)
  qed
qed

text \<open>
  A call with the cursor at \<open>k\<close>, when all entries from \<open>k\<close> up to \<open>i\<close> (excluded) are
  stale: the skip loop reaches index \<open>i\<close> having only written the state file.
\<close>

lemma sendNextIfDue_at:
  assumes nc: "\<not> completed st" and ki: "sentCount st \<le> i" and il: "i < length (schedule st)"
    and before: "\<forall>j. sentCount st \<le> j \<and> j < i \<longrightarrow> 30000 < nowMs tk - itemAt (schedule st ! j)"
  shows "\<exists>evi new.
           ev_at evi = itemAt (schedule st ! i) \<and>
           ev_kind evi = ev_kind (itemEvent (schedule st ! i)) \<and>
           (i = sentCount st \<longrightarrow> evi = itemEvent (schedule st ! i)) \<and> writesOnly new \<and>
           sendNextIfDue cfg tk st =
             (case skipPast (nowMs tk) (st\<lparr>sentCount := i\<rparr>) evi (itemAt (schedule st ! i) - nowMs tk) new of
                Finished st' acts \<Rightarrow> (st', acts)
              | Pending st' nextEvent' msUntil' acts \<Rightarrow>
                  if msUntil' \<le> 0
                  then let (st'', acts') = dispatch cfg tk st' nextEvent' in (st'', acts @ acts')
                  else (st', acts @ [SetTimeout (min msUntil' 5000)]))"
proof -
  let ?nw = "nowMs tk"
  from ki il have kl: "sentCount st < length (schedule st)" by simp
  obtain evi new where
    reach: "skipPast ?nw st (itemEvent (schedule st ! sentCount st))
              (itemAt (schedule st ! sentCount st) - ?nw) [] =
            skipPast ?nw (st\<lparr>sentCount := i\<rparr>) evi (itemAt (schedule st ! i) - ?nw) ([] @ new)"
    and evi: "ev_at evi = itemAt (schedule st ! i)" "ev_kind evi = ev_kind (itemEvent (schedule st ! i))"
      "i = sentCount st \<longrightarrow> evi = itemEvent (schedule st ! sentCount st)"
    and w: "writesOnly new"
    using skipPast_reach[OF ki il before refl, of "itemEvent (schedule st ! sentCount st)" "[]"]
    by (auto simp: ev_at_itemEvent)
  show ?thesis
    using sendNextIfDue_unfold[OF nc kl, of cfg tk] reach evi w
    by (intro exI[of _ evi] exI[of _ new]) auto
qed

lemma sendNextIfDue_stale:
  assumes nc: "\<not> completed st" and ki: "sentCount st \<le> i" and il: "i < length (schedule st)"
    and before: "\<forall>j. sentCount st \<le> j \<and> j < i \<longrightarrow> 30000 < nowMs tk - itemAt (schedule st ! j)"
    and res: "sendNextIfDue cfg tk st = (st', acts)"
    and stale: "30000 < nowMs tk - itemAt (schedule st ! i)"
  shows "i < sentCount st' \<and> (\<forall>ev req. Telegram i ev req \<notin> set acts) \<and>
         WriteJsonFile (st\<lparr>sentCount := i + 1\<rparr>) \<in> set acts"
proof -
  let ?nw = "nowMs tk"
  from sendNextIfDue_at[OF nc ki il before, of cfg] obtain evi new where w: "writesOnly new"
    and unf0: "sendNextIfDue cfg tk st =
     (case skipPast ?nw (st\<lparr>sentCount := i\<rparr>) evi (itemAt (schedule st ! i) - ?nw) new of
        Finished st' acts \<Rightarrow> (st', acts)
      | Pending st' nextEvent' msUntil' acts \<Rightarrow>
          if msUntil' \<le> 0
          then let (st'', acts') = dispatch cfg tk st' nextEvent' in (st'', acts @ acts')
          else (st', acts @ [SetTimeout (min msUntil' 5000)]))"
    by blast
  define r where "r = skipPast ?nw (st\<lparr>sentCount := i\<rparr>) evi (itemAt (schedule st ! i) - ?nw) new"
  have unf: "(st', acts) =
     (case r of
        Finished st' acts \<Rightarrow> (st', acts)
      | Pending st' nextEvent' msUntil' acts \<Rightarrow>
          if msUntil' \<le> 0
          then let (st'', acts') = dispatch cfg tk st' nextEvent' in (st'', acts @ acts')
          else (st', acts @ [SetTimeout (min msUntil' 5000)]))"
    using res unf0 by (simp add: r_def)
  note skip = after_skip_stale[OF stale il w r_def[symmetric]]
  show ?thesis
  proof (cases r)
    case (Finished s a)
    with skip unf show ?thesis by (auto dest: writesOnly_no_telegram)
  next
    case (Pending s e m a)
    with skip have s: "i < sentCount s" "writesOnly a" "WriteJsonFile (st\<lparr>sentCount := i + 1\<rparr>) \<in> set a"
      by simp_all
    show ?thesis
    proof (cases "m \<le> 0")
      case False
      with Pending unf s show ?thesis by (auto dest: writesOnly_no_telegram)
    next
      case True
      obtain s2 a2 where d: "dispatch cfg tk s e = (s2, a2)" by (cases "dispatch cfg tk s e")
      with True Pending unf have eq: "st' = s2" "acts = a @ a2" by simp_all
      from dispatch_state[OF d] s(1) have "i < sentCount s2" by simp
      moreover have "Telegram i ev req \<notin> set acts" for ev req
        using dispatch_telegram[OF d, of i ev req] s(1,2) eq
        by (auto dest: writesOnly_no_telegram)
      ultimately show ?thesis using s(3) eq by simp
    qed
  qed
qed

lemma sendNextIfDue_due:
  assumes nc: "\<not> completed st" and ki: "sentCount st \<le> i" and il: "i < length (schedule st)"
    and before: "\<forall>j. sentCount st \<le> j \<and> j < i \<longrightarrow> 30000 < nowMs tk - itemAt (schedule st ! j)"
    and res: "sendNextIfDue cfg tk st = (st', acts)"
    and due: "0 \<le> nowMs tk - itemAt (schedule st ! i)" and tol: "nowMs tk - itemAt (schedule st ! i) \<le> 30000"
    and known: "ev_kind (itemEvent (schedule st ! i)) \<noteq> OtherKind"
  shows "(\<exists>ev req. Telegram i ev req \<in> set acts \<and> ev_at ev = itemAt (schedule st ! i) \<and>
                    ev_kind ev = ev_kind (itemEvent (schedule st ! i))) \<and>
         sentCount st' = (if sendOk tk then i + 1 else i)"
proof -
  let ?nw = "nowMs tk"
  from sendNextIfDue_at[OF nc ki il before, of cfg] obtain evi new where w: "writesOnly new"
    and evi: "ev_at evi = itemAt (schedule st ! i)" "ev_kind evi = ev_kind (itemEvent (schedule st ! i))"
    and unf0: "sendNextIfDue cfg tk st =
     (case skipPast ?nw (st\<lparr>sentCount := i\<rparr>) evi (itemAt (schedule st ! i) - ?nw) new of
        Finished st' acts \<Rightarrow> (st', acts)
      | Pending st' nextEvent' msUntil' acts \<Rightarrow>
          if msUntil' \<le> 0
          then let (st'', acts') = dispatch cfg tk st' nextEvent' in (st'', acts @ acts')
          else (st', acts @ [SetTimeout (min msUntil' 5000)]))"
    by blast
  have r: "skipPast ?nw (st\<lparr>sentCount := i\<rparr>) evi (itemAt (schedule st ! i) - ?nw) new =
           Pending (st\<lparr>sentCount := i\<rparr>) evi (itemAt (schedule st ! i) - ?nw) new"
    using tol by (intro skipPast_fresh) simp
  obtain s2 a2 where d: "dispatch cfg tk (st\<lparr>sentCount := i\<rparr>) evi = (s2, a2)"
    by (cases "dispatch cfg tk (st\<lparr>sentCount := i\<rparr>) evi")
  with r unf0 res due have eq: "st' = s2" "acts = new @ a2" by simp_all
  from dispatch_known[OF _ d] known evi(2) eq evi(1) show ?thesis by auto
qed

text \<open>
  The skip policy on the cursor. In a call of \<^verbatim>\<open>sendNextIfDue\<close>, let the entries from the cursor up to index
  \<open>i\<close> (excluded) be more than 30 seconds in the past. If entry \<open>i\<close> is more than 30
  seconds in the past too, it is skipped: the cursor moves past it, no request is sent for
  it, and the state with the cursor at \<open>i + 1\<close> is written. If entry \<open>i\<close> is due and at
  most 30 seconds in the past (and of a known kind), a request is sent for it, and the
  cursor ends at \<open>i + 1\<close> when the request succeeds, at \<open>i\<close> when it fails.
\<close>

lemma sendNextIfDue_skip_policy:
  assumes nc: "\<not> completed st" and ki: "sentCount st \<le> i" and il: "i < length (schedule st)"
    and before: "\<forall>j. sentCount st \<le> j \<and> j < i \<longrightarrow> 30000 < nowMs tk - itemAt (schedule st ! j)"
    and res: "sendNextIfDue cfg tk st = (st', acts)"
  shows "(30000 < nowMs tk - itemAt (schedule st ! i) \<longrightarrow>
            i < sentCount st' \<and> (\<forall>ev req. Telegram i ev req \<notin> set acts) \<and>
            WriteJsonFile (st\<lparr>sentCount := i + 1\<rparr>) \<in> set acts) \<and>
         (0 \<le> nowMs tk - itemAt (schedule st ! i) \<and> nowMs tk - itemAt (schedule st ! i) \<le> 30000 \<and>
          ev_kind (itemEvent (schedule st ! i)) \<noteq> OtherKind \<longrightarrow>
            (\<exists>ev req. Telegram i ev req \<in> set acts \<and> ev_at ev = itemAt (schedule st ! i) \<and>
                       ev_kind ev = ev_kind (itemEvent (schedule st ! i))) \<and>
            sentCount st' = (if sendOk tk then i + 1 else i))"
proof (intro conjI impI)
  assume "30000 < nowMs tk - itemAt (schedule st ! i)"
  from sendNextIfDue_stale[OF nc ki il before res this]
  show "i < sentCount st'" "\<forall>ev req. Telegram i ev req \<notin> set acts"
    "WriteJsonFile (st\<lparr>sentCount := i + 1\<rparr>) \<in> set acts"
    by blast+
next
  assume a: "0 \<le> nowMs tk - itemAt (schedule st ! i) \<and> nowMs tk - itemAt (schedule st ! i) \<le> 30000 \<and>
          ev_kind (itemEvent (schedule st ! i)) \<noteq> OtherKind"
  from sendNextIfDue_due[OF nc ki il before res] a
  show "\<exists>ev req. Telegram i ev req \<in> set acts \<and> ev_at ev = itemAt (schedule st ! i) \<and>
                   ev_kind ev = ev_kind (itemEvent (schedule st ! i))"
    "sentCount st' = (if sendOk tk then i + 1 else i)"
    by blast+
qed

text \<open>
  Claim C5 fails on what is dispatched after a skip. The local \<^verbatim>\<open>nextEvent\<close> is a
  copy of the entry the call starts with, and the skip loop refreshes only its
  \<^verbatim>\<open>kind\<close> and \<^verbatim>\<open>at\<close>. Ten seconds after the one-minute countdown is due, with the
  two-minute countdown still pending (70 seconds stale), the call skips the two-minute
  entry and then, under cursor 1, sends the two-minute entry's picture and text; the text
  and picture of the entry that is due are not sent.
\<close>

theorem sendNextIfDue_sends_skipped_marker_content:
  "sendNextIfDue sampleConfig (sampleTick (sampleStart - 50000) True) sampleMarkers =
     (sampleMarkers\<lparr>sentCount := 2\<rparr>,
      [WriteJsonFile (sampleMarkers\<lparr>sentCount := 1\<rparr>),
       Telegram 1 \<lparr>ev_at = sampleStart - 60000, ev_kind = Countdown,
                   ev_text = Some (countdownText 2), ev_image = Some ''2.png''\<rparr>
         (SendTelegramPhoto ''2.png'' (MarkerText (Some (countdownText 2)))),
       WriteJsonFile (sampleMarkers\<lparr>sentCount := 2\<rparr>),
       SetTimeout 1000]) \<and>
   itemEvent (schedule sampleMarkers ! 1) =
     \<lparr>ev_at = sampleStart - 60000, ev_kind = Countdown,
      ev_text = Some (countdownText 1), ev_image = Some ''1.png''\<rparr> \<and>
   countdownText 2 \<noteq> countdownText 1"
proof -
  let ?now = "sampleStart - 50000"
  let ?e0 = "\<lparr>ev_at = sampleStart - 120000, ev_kind = Countdown,
              ev_text = Some (countdownText 2), ev_image = Some ''2.png''\<rparr>"
  let ?s1 = "sampleMarkers\<lparr>sentCount := 1\<rparr>"
  have skip: "skipPast ?now sampleMarkers ?e0 (- 70000) [] =
        Pending ?s1 (?e0\<lparr>ev_kind := Countdown, ev_at := sampleStart - 60000\<rparr>) (- 10000)
          [WriteJsonFile ?s1]"
    by (subst skipPast.simps, simp add: sampleMarkers_def MAX_ALLOWED_DELAY_MS_def Let_def,
        subst skipPast.simps, simp add: MAX_ALLOWED_DELAY_MS_def)
  have sent: "dispatch sampleConfig (sampleTick ?now True) ?s1
        (?e0\<lparr>ev_kind := Countdown, ev_at := sampleStart - 60000\<rparr>) =
        (sampleMarkers\<lparr>sentCount := 2\<rparr>,
         [Telegram 1 (?e0\<lparr>ev_kind := Countdown, ev_at := sampleStart - 60000\<rparr>)
            (SendTelegramPhoto ''2.png'' (MarkerText (Some (countdownText 2)))),
          WriteJsonFile (sampleMarkers\<lparr>sentCount := 2\<rparr>), SetTimeout 1000])"
    by (simp add: dispatch_def markerRequest_def truthy_def sampleTick_def sampleMarkers_def
          countdownText_def Let_def)
  have call: "sendNextIfDue sampleConfig (sampleTick ?now True) sampleMarkers =
        (sampleMarkers\<lparr>sentCount := 2\<rparr>,
         [WriteJsonFile ?s1,
          Telegram 1 (?e0\<lparr>ev_kind := Countdown, ev_at := sampleStart - 60000\<rparr>)
            (SendTelegramPhoto ''2.png'' (MarkerText (Some (countdownText 2)))),
          WriteJsonFile (sampleMarkers\<lparr>sentCount := 2\<rparr>), SetTimeout 1000])"
  proof -
    have nc: "\<not> completed sampleMarkers" and pending: "sentCount sampleMarkers < length (schedule sampleMarkers)"
      by (simp_all add: sampleMarkers_def)
    have first: "itemEvent (schedule sampleMarkers ! sentCount sampleMarkers) = ?e0"
      "itemAt (schedule sampleMarkers ! sentCount sampleMarkers) - ?now = - 70000"
      "nowMs (sampleTick ?now True) = ?now"
      by (simp_all add: sampleMarkers_def sampleTick_def)
    show ?thesis
      by (simp only: sendNextIfDue_unfold[OF nc pending] first skip skipped.case sent) simp
  qed
  have differ: "countdownText 2 \<noteq> countdownText 1"
    by (simp add: countdownText_def showInt_def)
  from call differ show ?thesis
    by (simp add: sampleMarkers_def)
qed





lemma sendNextIfDue_frame:
  assumes res: "sendNextIfDue cfg tk st = (st', acts)"
  shows "schedule st' = schedule st \<and> configSignature st' = configSignature st \<and>
         effectiveEnd st' = effectiveEnd st \<and> sentCount st \<le> sentCount st'"
proof (cases "completed st \<or> length (schedule st) \<le> sentCount st")
  case True
  with res show ?thesis by (auto simp: sendNextIfDue_def Let_def split: if_splits)
next
  case False
  then have nc: "\<not> completed st" and kl: "sentCount st < length (schedule st)" by simp_all
  let ?nw = "nowMs tk"
  note unf = sendNextIfDue_unfold[OF nc kl, of cfg tk]
  show ?thesis
  proof (cases "skipPast ?nw st (itemEvent (schedule st ! sentCount st)) (itemAt (schedule st ! sentCount st) - ?nw) []")
    case (Finished s a)
    from skipPast_Finished[OF this] res unf Finished kl show ?thesis by auto
  next
    case (Pending s e m a)
    from skipPast_Pending[OF this] have s: "s = st\<lparr>sentCount := sentCount s\<rparr>" "sentCount st \<le> sentCount s"
      by auto
    then have fr: "schedule s = schedule st" "configSignature s = configSignature st" "effectiveEnd s = effectiveEnd st"
      by (metis state.select_convs(1,2,3) state.surjective state.update_convs(4))+
    show ?thesis
    proof (cases "m \<le> 0")
      case False
      with res unf Pending s fr show ?thesis by auto
    next
      case True
      obtain s2 a2 where d: "dispatch cfg tk s e = (s2, a2)" by (cases "dispatch cfg tk s e")
      with True Pending unf res have eq: "st' = s2" by simp
      from dispatch_state[OF d] s fr eq show ?thesis by auto
    qed
  qed
qed






lemma startup_kept:
  assumes sig: "configSignature st = getConfigSignature cfg"
    and start: "startup rt cfg (Some st) = Inr (st0, acts0)"
  shows "st0 = (if enforceHardStopAtEnd cfg
                then st\<lparr>schedule := filter (\<lambda>item. itemAt item \<le> parseDate rt (endTimeUtc cfg)) (schedule st)\<rparr>
                else st) \<and>
         acts0 = (if enforceHardStopAtEnd cfg then [WriteJsonFile st0] else [])"
  using start sig
  by (auto simp: startup_def loadOrGenerate_def hardStopTrim_def Let_def split: if_splits)






section \<open>Properties of the JavaScript numbers\<close>

lemma roundTiesToEven_eqI:
  "real_of_int n - 1 / 2 < y \<Longrightarrow> y < real_of_int n + 1 / 2 \<Longrightarrow> roundTiesToEven y = n"
proof -
  assume a: "real_of_int n - 1 / 2 < y" "y < real_of_int n + 1 / 2"
  show ?thesis
  proof (cases "real_of_int n \<le> y")
    case True
    with a have "\<lfloor>y\<rfloor> = n" by (intro floor_unique) simp_all
    with a show ?thesis by (simp add: roundTiesToEven_def)
  next
    case False
    with a have f: "\<lfloor>y\<rfloor> = n - 1" by (intro floor_unique) simp_all
    with a False show ?thesis by (simp add: roundTiesToEven_def)
  qed
qed

lemma roundTiesToEven_of_int [simp]: "roundTiesToEven (real_of_int n) = n"
  by (rule roundTiesToEven_eqI) simp_all

lemma bitlen_eqI:
  assumes "2 ^ k \<le> n" "n < 2 ^ Suc k"
  shows "bitlen n = int k + 1"
proof -
  have "(0::int) < 2 ^ k" by simp
  with assms(1) have pos: "0 < n" by linarith
  from bitlen_bounds[OF pos] have b: "2 ^ nat (bitlen n - 1) \<le> n" "n < 2 ^ nat (bitlen n)"
    by simp_all
  have "(2::int) ^ k < 2 ^ nat (bitlen n)" using assms(1) b(2) by linarith
  then have 1: "k < nat (bitlen n)" by (simp add: power_strict_increasing_iff)
  have "(2::int) ^ nat (bitlen n - 1) < 2 ^ Suc k" using assms(2) b(1) by linarith
  then have 2: "nat (bitlen n - 1) < Suc k" by (simp only: power_strict_increasing_iff) 
  from 1 2 show ?thesis by linarith
qed

lemma binade_eqI:
  assumes lo: "2 ^ k \<le> x" and hi: "x < 2 ^ Suc k"
  shows "binade x = int k"
proof -
  have x1: "1 \<le> x" using lo one_le_power[of "2::real" k] by linarith
  have "real_of_int (2 ^ k) \<le> x" using lo by simp
  then have l: "2 ^ k \<le> \<lfloor>x\<rfloor>" by (simp only: le_floor_iff)
  have "x < real_of_int (2 ^ Suc k)" using hi by simp
  then have h: "\<lfloor>x\<rfloor> < 2 ^ Suc k" by (simp only: floor_less_iff)
  from bitlen_eqI[OF l h] x1 show ?thesis by (simp add: binade_def)
qed

lemma nearestDouble_eqI:
  assumes lo: "2 ^ k \<le> x" and hi: "x < 2 ^ Suc k" and k: "k \<le> 52"
    and n: "real_of_int n - 1 / 2 < x * 2 ^ (52 - k)" "x * 2 ^ (52 - k) < real_of_int n + 1 / 2"
  shows "nearestDouble x = real_of_int n / 2 ^ (52 - k)"
proof -
  have x0: "x \<noteq> 0" using lo zero_less_power[of "2::real" k] by linarith
  have u: "ulp x = 1 / 2 ^ (52 - k)"
    using k by (simp add: ulp_def binade_eqI[OF lo hi] pow2_def nat_diff_distrib)
  have "roundTiesToEven (x / ulp x) = n"
    using n by (intro roundTiesToEven_eqI) (simp_all add: u)
  with x0 show ?thesis by (simp add: nearestDouble_def u)
qed

lemma nearestDouble_of_int:
  assumes n: "0 \<le> n" "n < 2 ^ 53"
  shows "nearestDouble (real_of_int n) = real_of_int n"
proof (cases "n = 0")
  case True
  then show ?thesis by (simp add: nearestDouble_def)
next
  case False
  with n have pos: "0 < n" by simp
  define b where "b = nat (bitlen n - 1)"
  from bitlen_bounds[OF pos] have bb: "2 ^ b \<le> n" "n < 2 ^ nat (bitlen n)"
    by (simp_all add: b_def)
  have b1: "1 \<le> bitlen n" using pos bitlen_eq_zero_iff[of n] bitlen_nonneg[of n] by linarith
  then have sb: "nat (bitlen n) = Suc b" by (simp add: b_def)
  have "(2::int) ^ b < 2 ^ 53" using bb(1) n(2) by linarith
  then have b52: "b \<le> 52" using power_strict_increasing_iff[of "2::int" b 53] by simp
  have lo: "(2::real) ^ b \<le> real_of_int n"
    using bb(1) by (metis of_int_le_iff of_int_numeral of_int_power)
  have hi: "real_of_int n < 2 ^ Suc b"
    using bb(2) sb by (metis of_int_less_iff of_int_numeral of_int_power)
  have "nearestDouble (real_of_int n) = real_of_int (n * 2 ^ (52 - b)) / 2 ^ (52 - b)"
    by (rule nearestDouble_eqI[OF lo hi b52]) simp_all
  then show ?thesis by simp
qed

lemma nearestDouble_numeral:
  "(numeral k :: int) < 2 ^ 53 \<Longrightarrow> nearestDouble (numeral k) = numeral k"
  using nearestDouble_of_int[of "numeral k"] by simp

lemma nearestDouble_1 [simp]: "nearestDouble 1 = 1"
  using nearestDouble_of_int[of 1] by simp

lemma nearestDouble_0 [simp]: "nearestDouble 0 = 0"
  by (simp add: nearestDouble_def)

lemma doubleOf_finite:
  assumes "\<bar>nearestDouble x\<bar> \<le> 2 ^ 53"
  shows "doubleOf x = Finite (nearestDouble x)"
proof -
  have "(2::real) ^ 53 < 2 ^ 1024" by (rule power_strict_increasing) simp_all
  with assms show ?thesis by (simp add: doubleOf_def Let_def abs_le_iff)
qed

lemma doubleOf_numeral:
  "(numeral k :: int) < 2 ^ 53 \<Longrightarrow> doubleOf (numeral k) = Finite (numeral k)"
proof -
  assume k: "(numeral k :: int) < 2 ^ 53"
  then have "real_of_int (numeral k) < real_of_int (2 ^ 53)" by (simp only: of_int_less_iff)
  then have "(numeral k :: real) \<le> 2 ^ 53" by simp
  with k show ?thesis by (simp add: doubleOf_finite nearestDouble_numeral)
qed

lemma doubleOf_0_1 [simp]: "doubleOf 0 = Finite 0" "doubleOf 1 = Finite 1"
  by (simp_all add: doubleOf_finite)

lemma doubleOf_eqI:
  assumes lo: "2 ^ k \<le> x" and hi: "x < 2 ^ Suc k" and k: "k \<le> 52"
    and n: "real_of_int n - 1 / 2 < x * 2 ^ (52 - k)" "x * 2 ^ (52 - k) < real_of_int n + 1 / 2"
  shows "doubleOf x = Finite (real_of_int n / 2 ^ (52 - k))"
proof -
  have nd: "nearestDouble x = real_of_int n / 2 ^ (52 - k)"
    using lo hi k n by (rule nearestDouble_eqI)
  have x0: "0 < x" using lo zero_less_power[of "2::real" k] by linarith
  then have "0 < x * 2 ^ (52 - k)" by simp
  with n(2) have "- 1 / 2 < real_of_int n" by linarith
  then have n0: "0 \<le> n" by linarith
  have "x * 2 ^ (52 - k) < 2 ^ Suc k * 2 ^ (52 - k)" using hi by simp
  also have "\<dots> = 2 ^ 53" using k by (simp flip: power_add)
  finally have "real_of_int n < 2 ^ 53 + 1 / 2" using n(1) by linarith
  then have "real_of_int n < real_of_int (2 ^ 53 + 1)" by simp
  then have "n < 2 ^ 53 + 1" by (simp only: of_int_less_iff)
  then have "real_of_int n \<le> 2 ^ 53" by simp
  moreover have "(2::real) ^ 53 * 1 \<le> 2 ^ 53 * 2 ^ (52 - k)"
    by (rule mult_left_mono) simp_all
  ultimately have "real_of_int n \<le> 2 ^ 53 * 2 ^ (52 - k)" by linarith
  then have "real_of_int n / 2 ^ (52 - k) \<le> 2 ^ 53"
    by (simp add: divide_le_eq)
  moreover have "0 \<le> real_of_int n / 2 ^ (52 - k)" using n0 by simp
  ultimately show ?thesis by (simp add: doubleOf_finite nd)
qed

lemma doubleOf_of_int:
  assumes "0 \<le> n" "n < 2 ^ 53"
  shows "doubleOf (real_of_int n) = Finite (real_of_int n)"
proof -
  have "real_of_int n \<le> 2 ^ 53"
    using assms(2) by (metis less_imp_le of_int_le_iff of_int_numeral of_int_power)
  then show ?thesis
    using assms by (simp add: doubleOf_finite nearestDouble_of_int)
qed

section \<open>Properties of the per-hour allocation and the plan\<close>

lemma sum_list_update_int:
  "k < length xs \<Longrightarrow> sum_list (xs[k := x]) = sum_list xs + x - (xs ! k :: int)"
  by (induction xs arbitrary: k) (auto split: nat.splits)

lemma addHeadroom_length: "length (fst (addHeadroom mx idxs ph d)) = length ph"
  by (induction mx idxs ph d rule: addHeadroom.induct) (auto simp: Let_def)

lemma addHeadroom_sum:
  "\<forall>i \<in> set idxs. i < length ph \<Longrightarrow>
   sum_list (fst (addHeadroom mx idxs ph d)) = sum_list ph + (d - snd (addHeadroom mx idxs ph d))"
  by (induction mx idxs ph d rule: addHeadroom.induct) (auto simp: Let_def sum_list_update_int)

lemma addHeadroom_left: "0 \<le> d \<Longrightarrow> 0 \<le> snd (addHeadroom mx idxs ph d)"
  by (induction mx idxs ph d rule: addHeadroom.induct) (auto simp: Let_def)

lemma addHeadroom_lower:
  "\<forall>x \<in> set ph. lo \<le> x \<Longrightarrow> \<forall>x \<in> set (fst (addHeadroom mx idxs ph d)). lo \<le> x"
proof (induction mx idxs ph d rule: addHeadroom.induct)
  case (1 mx ph d)
  then show ?case by simp
next
  case (2 mx i idxs ph d)
  show ?case
  proof (cases "d \<le> 0 \<or> \<not> mx - ph ! i > 0")
    case True
    with 2 show ?thesis by (auto simp: Let_def)
  next
    case False
    then have pos: "0 < d" "0 < mx - ph ! i" by simp_all
    have "\<forall>x \<in> set (ph[i := ph ! i + min (mx - ph ! i) d]). lo \<le> x"
    proof
      fix x assume x: "x \<in> set (ph[i := ph ! i + min (mx - ph ! i) d])"
      show "lo \<le> x"
      proof (cases "i < length ph")
        case True
        then have "ph ! i \<in> set ph" by simp
        with "2.prems" have b: "lo \<le> ph ! i" by blast
        from x have "x = ph ! i + min (mx - ph ! i) d \<or> x \<in> set ph"
          using set_update_subset_insert[of ph i] by blast
        with b "2.prems" pos show ?thesis by (auto simp: min_def max_def)
      next
        case False
        then have "ph[i := v] = ph" for v by (simp add: list_update_beyond)
        with x have "x \<in> set ph" by simp
        with "2.prems" show ?thesis by blast
      qed
    qed
    with "2.IH"(1)[OF _ refl _ refl] False show ?thesis by (simp add: Let_def)
  qed
qed

lemma addHeadroom_upper:
  "\<forall>x \<in> set ph. x \<le> mx \<Longrightarrow> \<forall>x \<in> set (fst (addHeadroom mx idxs ph d)). x \<le> mx"
proof (induction mx idxs ph d rule: addHeadroom.induct)
  case (1 mx ph d)
  then show ?case by simp
next
  case (2 mx i idxs ph d)
  show ?case
  proof (cases "d \<le> 0 \<or> \<not> mx - ph ! i > 0")
    case True
    with 2 show ?thesis by (auto simp: Let_def)
  next
    case False
    then have pos: "0 < d" "0 < mx - ph ! i" by simp_all
    have "\<forall>x \<in> set (ph[i := ph ! i + min (mx - ph ! i) d]). x \<le> mx"
    proof
      fix x assume x: "x \<in> set (ph[i := ph ! i + min (mx - ph ! i) d])"
      show "x \<le> mx"
      proof (cases "i < length ph")
        case True
        then have "ph ! i \<in> set ph" by simp
        with "2.prems" have b: "ph ! i \<le> mx" by blast
        from x have "x = ph ! i + min (mx - ph ! i) d \<or> x \<in> set ph"
          using set_update_subset_insert[of ph i] by blast
        with b "2.prems" pos show ?thesis by (auto simp: min_def max_def)
      next
        case False
        then have "ph[i := v] = ph" for v by (simp add: list_update_beyond)
        with x have "x \<in> set ph" by simp
        with "2.prems" show ?thesis by blast
      qed
    qed
    with "2.IH"(1)[OF _ refl _ refl] False show ?thesis by (simp add: Let_def)
  qed
qed

lemma map_nth_update_other:
  "i \<notin> set idxs \<Longrightarrow> map (\<lambda>j. f (ph[i := v] ! j)) idxs = map (\<lambda>j. f (ph ! j)) idxs"
  by (induction idxs) auto

lemma addHeadroom_exact:
  "distinct idxs \<Longrightarrow> \<forall>i \<in> set idxs. i < length ph \<Longrightarrow>
   d \<le> sum_list (map (\<lambda>i. max 0 (mx - ph ! i)) idxs) \<Longrightarrow>
   snd (addHeadroom mx idxs ph d) \<le> 0"
proof (induction mx idxs ph d rule: addHeadroom.induct)
  case (1 mx ph d)
  then show ?case by simp
next
  case (2 mx i idxs ph d)
  have nn: "0 \<le> sum_list (map (\<lambda>i. max 0 (mx - ph ! i)) idxs)"
    by (rule sum_list_nonneg) auto
  show ?case
  proof (cases "d \<le> 0")
    case True
    then show ?thesis by simp
  next
    case dpos: False
    show ?thesis
    proof (cases "mx - ph ! i > 0")
      case False
      with dpos "2.IH"(2)[OF _ refl] "2.prems" show ?thesis by (simp add: Let_def)
    next
      case True
      let ?add = "min (mx - ph ! i) d"
      let ?ph = "ph[i := ph ! i + ?add]"
      have same: "map (\<lambda>j. max 0 (mx - ?ph ! j)) idxs = map (\<lambda>j. max 0 (mx - ph ! j)) idxs"
        using "2.prems"(1) by (intro map_nth_update_other) simp
      have "d - ?add \<le> sum_list (map (\<lambda>j. max 0 (mx - ?ph ! j)) idxs)"
        unfolding same using "2.prems"(3) True nn by (auto simp: min_def)
      with dpos True "2.IH"(1)[OF _ refl _ refl] "2.prems" show ?thesis by (simp add: Let_def)
    qed
  qed
qed

lemma takeDown_length: "length (fst (takeDown fl idxs ph d)) = length ph"
  by (induction fl idxs ph d rule: takeDown.induct) (auto simp: Let_def)

lemma takeDown_sum:
  "\<forall>i \<in> set idxs. i < length ph \<Longrightarrow>
   sum_list (fst (takeDown fl idxs ph d)) = sum_list ph - (d - snd (takeDown fl idxs ph d))"
  by (induction fl idxs ph d rule: takeDown.induct) (auto simp: Let_def sum_list_update_int)

lemma takeDown_left: "0 \<le> d \<Longrightarrow> 0 \<le> snd (takeDown fl idxs ph d)"
  by (induction fl idxs ph d rule: takeDown.induct) (auto simp: Let_def)

lemma takeDown_upper:
  "\<forall>x \<in> set ph. x \<le> hi \<Longrightarrow> \<forall>x \<in> set (fst (takeDown fl idxs ph d)). x \<le> hi"
proof (induction fl idxs ph d rule: takeDown.induct)
  case (1 fl ph d)
  then show ?case by simp
next
  case (2 fl i idxs ph d)
  show ?case
  proof (cases "d \<le> 0 \<or> \<not> max 0 (ph ! i - fl) > 0")
    case True
    with 2 show ?thesis by (auto simp: Let_def)
  next
    case False
    then have pos: "0 < d" "0 < ph ! i - fl" by (simp_all add: max_def split: if_splits)
    have "\<forall>x \<in> set (ph[i := ph ! i - min (max 0 (ph ! i - fl)) d]). x \<le> hi"
    proof
      fix x assume x: "x \<in> set (ph[i := ph ! i - min (max 0 (ph ! i - fl)) d])"
      show "x \<le> hi"
      proof (cases "i < length ph")
        case True
        then have "ph ! i \<in> set ph" by simp
        with "2.prems" have b: "ph ! i \<le> hi" by blast
        from x have "x = ph ! i - min (max 0 (ph ! i - fl)) d \<or> x \<in> set ph"
          using set_update_subset_insert[of ph i] by blast
        with b "2.prems" pos show ?thesis by (auto simp: min_def max_def)
      next
        case False
        then have "ph[i := v] = ph" for v by (simp add: list_update_beyond)
        with x have "x \<in> set ph" by simp
        with "2.prems" show ?thesis by blast
      qed
    qed
    moreover have "max 0 (ph ! i - fl) = ph ! i - fl" using pos by simp
    ultimately show ?thesis
      using "2.IH"(1)[OF _ refl _ refl] False by (simp add: Let_def)
  qed
qed

lemma takeDown_lower:
  "\<forall>x \<in> set ph. lo \<le> x \<Longrightarrow> lo \<le> fl \<Longrightarrow> \<forall>x \<in> set (fst (takeDown fl idxs ph d)). lo \<le> x"
proof (induction fl idxs ph d rule: takeDown.induct)
  case (1 fl ph d)
  then show ?case by simp
next
  case (2 fl i idxs ph d)
  show ?case
  proof (cases "d \<le> 0 \<or> \<not> max 0 (ph ! i - fl) > 0")
    case True
    with 2 show ?thesis by (auto simp: Let_def)
  next
    case False
    then have pos: "0 < d" "0 < ph ! i - fl" by (simp_all add: max_def split: if_splits)
    have "\<forall>x \<in> set (ph[i := ph ! i - min (max 0 (ph ! i - fl)) d]). lo \<le> x"
    proof
      fix x assume x: "x \<in> set (ph[i := ph ! i - min (max 0 (ph ! i - fl)) d])"
      show "lo \<le> x"
      proof (cases "i < length ph")
        case True
        then have "ph ! i \<in> set ph" by simp
        with "2.prems" have b: "lo \<le> ph ! i" by blast
        from x have "x = ph ! i - min (max 0 (ph ! i - fl)) d \<or> x \<in> set ph"
          using set_update_subset_insert[of ph i] by blast
        with b "2.prems" pos show ?thesis by (auto simp: min_def max_def)
      next
        case False
        then have "ph[i := v] = ph" for v by (simp add: list_update_beyond)
        with x have "x \<in> set ph" by simp
        with "2.prems" show ?thesis by blast
      qed
    qed
    moreover have "max 0 (ph ! i - fl) = ph ! i - fl" using pos by simp
    ultimately show ?thesis
      using "2.IH"(1)[OF _ refl _ refl] "2.prems"(2) False by (simp add: Let_def)
  qed
qed

lemma takeDown_exact:
  "distinct idxs \<Longrightarrow> \<forall>i \<in> set idxs. i < length ph \<Longrightarrow>
   d \<le> sum_list (map (\<lambda>i. max 0 (ph ! i - fl)) idxs) \<Longrightarrow>
   snd (takeDown fl idxs ph d) \<le> 0"
proof (induction fl idxs ph d rule: takeDown.induct)
  case (1 fl ph d)
  then show ?case by simp
next
  case (2 fl i idxs ph d)
  have nn: "0 \<le> sum_list (map (\<lambda>i. max 0 (ph ! i - fl)) idxs)"
    by (rule sum_list_nonneg) auto
  show ?case
  proof (cases "d \<le> 0")
    case True
    then show ?thesis by simp
  next
    case dpos: False
    show ?thesis
    proof (cases "max 0 (ph ! i - fl) > 0")
      case False
      with dpos "2.IH"(2)[OF _ refl] "2.prems" show ?thesis by (simp add: Let_def)
    next
      case True
      let ?r = "min (max 0 (ph ! i - fl)) d"
      let ?ph = "ph[i := ph ! i - ?r]"
      have same: "map (\<lambda>j. max 0 (?ph ! j - fl)) idxs = map (\<lambda>j. max 0 (ph ! j - fl)) idxs"
        using "2.prems"(1) by (intro map_nth_update_other[where f = "\<lambda>x. max 0 (x - fl)"]) simp
      have "d - ?r \<le> sum_list (map (\<lambda>j. max 0 (?ph ! j - fl)) idxs)"
        unfolding same using "2.prems"(3) True nn by (auto simp: min_def)
      with dpos True "2.IH"(1)[OF _ refl _ refl] "2.prems" show ?thesis
        by (simp add: Let_def max_def split: if_splits)
    qed
  qed
qed

lemma perm_idxs:
  assumes "mset idxs = mset [0..<n]"
  shows "distinct idxs" and "\<forall>i \<in> set idxs. i < n"
    and "sum_list (map (f :: nat \<Rightarrow> int) idxs) = sum_list (map f [0..<n])"
proof -
  show "distinct idxs"
    using assms by (metis distinct_upt mset_eq_imp_distinct_iff)
  show "\<forall>i \<in> set idxs. i < n"
    using mset_eq_setD[OF assms] by auto
  have "sum_mset (image_mset f (mset idxs)) = sum_mset (image_mset f (mset [0..<n]))"
    using assms by simp
  then show "sum_list (map f idxs) = sum_list (map f [0..<n])"
    by (metis mset_map sum_mset_sum_list)
qed

lemma map_over_indices: "map (\<lambda>i. g (ph ! i)) [0..<length ph] = map g ph"
proof -
  have "map (\<lambda>i. g (ph ! i)) [0..<length ph] = map g (map (\<lambda>i. ph ! i) [0..<length ph])"
    by simp
  then show ?thesis by (simp only: map_nth)
qed

lemma headroom_total:
  "\<forall>x \<in> set ph. x \<le> mx \<Longrightarrow>
   sum_list (map (\<lambda>x. max 0 (mx - x)) ph) = int (length ph) * mx - sum_list ph"
  by (induction ph) (auto simp: algebra_simps)

lemma reducible_total:
  "\<forall>x \<in> set ph. fl \<le> x \<Longrightarrow>
   sum_list (map (\<lambda>x. max 0 (x - fl)) ph) = sum_list ph - int (length ph) * fl"
  by (induction ph) (auto simp: algebra_simps)

text \<open>Adding in a shuffled order of all hours, with room for all that is missing.\<close>

lemma addHeadroom_all:
  assumes perm: "mset idxs = mset [0..<length ph]"
    and le: "\<forall>x \<in> set ph. x \<le> mx" and d: "0 \<le> d" "d \<le> int (length ph) * mx - sum_list ph"
  shows "sum_list (fst (addHeadroom mx idxs ph d)) = sum_list ph + d"
proof -
  note p = perm_idxs[OF perm]
  have "sum_list (map (\<lambda>i. max 0 (mx - ph ! i)) idxs) = int (length ph) * mx - sum_list ph"
    using p(3)[of "\<lambda>i. max 0 (mx - ph ! i)"] headroom_total[OF le]
    by (simp add: map_over_indices[of "\<lambda>x. max 0 (mx - x)"])
  with d have "snd (addHeadroom mx idxs ph d) \<le> 0"
    by (intro addHeadroom_exact p) simp_all
  with addHeadroom_left[OF d(1), of mx idxs ph] have "snd (addHeadroom mx idxs ph d) = 0"
    by simp
  with addHeadroom_sum[OF p(2), of mx d] show ?thesis by simp
qed

lemma takeDown_all:
  assumes perm: "mset idxs = mset [0..<length ph]"
    and ge: "\<forall>x \<in> set ph. fl \<le> x" and d: "0 \<le> d" "d \<le> sum_list ph - int (length ph) * fl"
  shows "sum_list (fst (takeDown fl idxs ph d)) = sum_list ph - d"
proof -
  note p = perm_idxs[OF perm]
  have "sum_list (map (\<lambda>i. max 0 (ph ! i - fl)) idxs) = sum_list ph - int (length ph) * fl"
    using p(3)[of "\<lambda>i. max 0 (ph ! i - fl)"] reducible_total[OF ge]
    by (simp add: map_over_indices[of "\<lambda>x. max 0 (x - fl)"])
  with d have "snd (takeDown fl idxs ph d) \<le> 0"
    by (intro takeDown_exact p) simp_all
  with takeDown_left[OF d(1), of fl idxs ph] have "snd (takeDown fl idxs ph d) = 0"
    by simp
  with takeDown_sum[OF p(2), of fl d] show ?thesis by simp
qed

lemma sum_list_ge_0: "\<forall>x \<in> set (ph :: int list). 0 \<le> x \<Longrightarrow> 0 \<le> sum_list ph"
  by (induction ph) auto

lemma rebalance_length: "length (rebalance rt mx needed ph) = length ph"
  by (simp add: rebalance_def Let_def addHeadroom_length takeDown_length)

lemma rebalance_sum:
  assumes perm: "\<forall>k xs. mset (shuffle rt k xs) = mset xs"
    and nn: "\<forall>x \<in> set ph. 0 \<le> x" and needed: "0 \<le> needed" "needed \<le> int (length ph) * mx"
    and mx: "0 \<le> mx"
  shows "sum_list (rebalance rt mx needed ph) = needed"
proof (cases "sum_list ph = needed")
  case True
  then show ?thesis by (simp add: rebalance_def)
next
  case False
  let ?cl = "map (\<lambda>n. min n mx) ph"
  let ?idxs = "shuffle rt 0 [0..<length ph]"
  have p: "mset ?idxs = mset [0..<length ?cl]" using perm by simp
  have le: "\<forall>x \<in> set ?cl. x \<le> mx" by simp
  have ge: "\<forall>x \<in> set ?cl. 0 \<le> x" using nn mx by simp
  consider (add) "needed - sum_list ?cl > 0" | (take) "needed - sum_list ?cl < 0"
    | (same) "needed - sum_list ?cl = 0" by linarith
  then show ?thesis
  proof cases
    case add
    have "sum_list (fst (addHeadroom mx ?idxs ?cl (needed - sum_list ?cl))) = sum_list ?cl + (needed - sum_list ?cl)"
      using add needed by (intro addHeadroom_all[OF p le]) simp_all
    with False add show ?thesis by (simp add: rebalance_def Let_def)
  next
    case take
    have "sum_list (fst (takeDown 0 ?idxs ?cl (- (needed - sum_list ?cl)))) = sum_list ?cl - (- (needed - sum_list ?cl))"
      using take needed by (intro takeDown_all[OF p ge]) simp_all
    with False take show ?thesis by (simp add: rebalance_def Let_def)
  next
    case same
    with False show ?thesis by (simp add: rebalance_def Let_def)
  qed
qed

lemma rebalance_cases:
  obtains (kept) "sum_list ph = needed" "rebalance rt mx needed ph = ph"
  | (added) idxs d where "sum_list ph \<noteq> needed"
      "rebalance rt mx needed ph = fst (addHeadroom mx idxs (map (\<lambda>n. min n mx) ph) d)"
  | (taken) idxs d where "sum_list ph \<noteq> needed"
      "rebalance rt mx needed ph = fst (takeDown 0 idxs (map (\<lambda>n. min n mx) ph) d)"
  | (clamped) "sum_list ph \<noteq> needed" "rebalance rt mx needed ph = map (\<lambda>n. min n mx) ph"
proof (cases "sum_list ph = needed")
  case True
  then show ?thesis using kept by (simp add: rebalance_def)
next
  case False
  let ?cl = "map (\<lambda>n. min n mx) ph"
  consider "needed - sum_list ?cl > 0" | "needed - sum_list ?cl < 0" | "needed - sum_list ?cl = 0"
    by linarith
  then show ?thesis
  proof cases
    case 1
    with False show ?thesis using added by (simp add: rebalance_def Let_def)
  next
    case 2
    with False show ?thesis using taken by (simp add: rebalance_def Let_def)
  next
    case 3
    with False show ?thesis using clamped by (simp add: rebalance_def Let_def)
  qed
qed

lemma rebalance_nonneg:
  assumes nn: "\<forall>x \<in> set ph. 0 \<le> x" and mx: "0 \<le> mx"
  shows "\<forall>x \<in> set (rebalance rt mx needed ph). 0 \<le> x"
proof -
  have ge: "\<forall>x \<in> set (map (\<lambda>n. min n mx) ph). 0 \<le> x" using nn mx by simp
  show ?thesis
  proof (cases rt mx needed ph rule: rebalance_cases)
    case kept
    with nn show ?thesis by simp
  next
    case (added idxs d)
    with addHeadroom_lower[OF ge] show ?thesis by simp
  next
    case (taken idxs d)
    with takeDown_lower[OF ge order_refl] show ?thesis by simp
  next
    case clamped
    with ge show ?thesis by simp
  qed
qed

lemma rebalance_upper:
  assumes "sum_list ph \<noteq> needed \<or> (\<forall>x \<in> set ph. x \<le> mx)"
  shows "\<forall>x \<in> set (rebalance rt mx needed ph). x \<le> mx"
proof -
  have le: "\<forall>x \<in> set (map (\<lambda>n. min n mx) ph). x \<le> mx" by simp
  show ?thesis
  proof (cases rt mx needed ph rule: rebalance_cases)
    case kept
    with assms show ?thesis by simp
  next
    case (added idxs d)
    with addHeadroom_upper[OF le] show ?thesis by simp
  next
    case (taken idxs d)
    with takeDown_upper[OF le] show ?thesis by simp
  next
    case clamped
    with le show ?thesis by simp
  qed
qed

lemma raiseToMin_fst: "fst (raiseToMin mn ph) = map (\<lambda>x. max x mn) ph"
  by (induction ph) (auto simp: Let_def split: prod.splits)

lemma raiseToMin_snd: "snd (raiseToMin mn ph) = sum_list (map (\<lambda>x. max x mn) ph) - sum_list ph"
  by (induction ph) (auto simp: Let_def split: prod.splits)

lemma raiseToMin_snd_nonneg: "0 \<le> snd (raiseToMin mn ph)"
  by (induction ph) (auto simp: Let_def split: prod.splits)

lemma softFloor_unfold:
  "softFloor rt mn ph =
     (if snd (raiseToMin mn ph) > 0
      then fst (takeDown mn (shuffle rt 1 [0..<length ph]) (map (\<lambda>x. max x mn) ph) (snd (raiseToMin mn ph)))
      else map (\<lambda>x. max x mn) ph)"
proof (cases "raiseToMin mn ph")
  case (Pair raised deficit)
  with raiseToMin_fst[of mn ph] have "raised = map (\<lambda>x. max x mn) ph" by simp
  with Pair show ?thesis by (simp add: softFloor_def)
qed

lemma softFloor_length: "length (softFloor rt mn ph) = length ph"
  by (simp add: softFloor_unfold takeDown_length)

lemma softFloor_sum_ge:
  assumes perm: "\<forall>k xs. mset (shuffle rt k xs) = mset xs"
  shows "sum_list ph \<le> sum_list (softFloor rt mn ph)"
proof (cases "snd (raiseToMin mn ph) > 0")
  case False
  with raiseToMin_snd_nonneg[of mn ph] show ?thesis
    by (simp add: softFloor_unfold raiseToMin_snd)
next
  case True
  let ?raised = "map (\<lambda>x. max x mn) ph"
  let ?idxs = "shuffle rt 1 [0..<length ph]"
  let ?d = "snd (raiseToMin mn ph)"
  have p: "mset ?idxs = mset [0..<length ?raised]" using perm by simp
  have "sum_list (fst (takeDown mn ?idxs ?raised ?d)) = sum_list ?raised - (?d - snd (takeDown mn ?idxs ?raised ?d))"
    by (intro takeDown_sum) (use perm_idxs(2)[OF p] in simp)
  moreover have "0 \<le> snd (takeDown mn ?idxs ?raised ?d)"
    using True by (intro takeDown_left) simp
  ultimately show ?thesis
    using True by (simp add: softFloor_unfold raiseToMin_snd)
qed

lemma softFloor_nonneg:
  assumes nn: "\<forall>x \<in> set ph. 0 \<le> x"
  shows "\<forall>x \<in> set (softFloor rt mn ph). 0 \<le> x"
proof (cases "snd (raiseToMin mn ph) > 0")
  case False
  have "\<forall>x \<in> set (map (\<lambda>x. max x mn) ph). 0 \<le> x" using nn by auto
  with False show ?thesis by (simp only: softFloor_unfold if_False)
next
  case True
  have "0 \<le> mn"
  proof (rule ccontr)
    assume neg: "\<not> 0 \<le> mn"
    have "map (\<lambda>x. max x mn) ph = ph"
    proof (rule map_idI)
      fix x assume "x \<in> set ph"
      with nn neg show "max x mn = x" by auto
    qed
    with True show False by (simp add: raiseToMin_snd)
  qed
  moreover have "\<forall>x \<in> set (map (\<lambda>x. max x mn) ph). 0 \<le> x" using nn by auto
  ultimately have "\<forall>x \<in> set (fst (takeDown mn (shuffle rt 1 [0..<length ph])
      (map (\<lambda>x. max x mn) ph) (snd (raiseToMin mn ph)))). 0 \<le> x"
    by (intro takeDown_lower)
  with True show ?thesis by (simp only: softFloor_unfold if_True)
qed

lemma softFloor_exact:
  assumes perm: "\<forall>k xs. mset (shuffle rt k xs) = mset xs"
    and enough: "int (length ph) * mn \<le> sum_list ph"
  shows "sum_list (softFloor rt mn ph) = sum_list ph" and "\<forall>x \<in> set (softFloor rt mn ph). mn \<le> x"
proof -
  let ?raised = "map (\<lambda>x. max x mn) ph"
  let ?idxs = "shuffle rt 1 [0..<length ph]"
  let ?d = "snd (raiseToMin mn ph)"
  have ge: "\<forall>x \<in> set ?raised. mn \<le> x" by simp
  have d: "?d = sum_list ?raised - sum_list ph" by (rule raiseToMin_snd)
  show "sum_list (softFloor rt mn ph) = sum_list ph"
  proof (cases "?d > 0")
    case False
    with raiseToMin_snd_nonneg[of mn ph] have "sum_list ?raised = sum_list ph" using d by simp
    with False show ?thesis by (simp only: softFloor_unfold if_False)
  next
    case True
    have p: "mset ?idxs = mset [0..<length ?raised]" using perm by simp
    have "sum_list (fst (takeDown mn ?idxs ?raised ?d)) = sum_list ?raised - ?d"
      using True enough d by (intro takeDown_all[OF p ge]) simp_all
    with True d show ?thesis by (simp only: softFloor_unfold if_True)
  qed
  show "\<forall>x \<in> set (softFloor rt mn ph). mn \<le> x"
  proof (cases "?d > 0")
    case False
    with ge show ?thesis by (simp only: softFloor_unfold if_False)
  next
    case True
    have "\<forall>x \<in> set (fst (takeDown mn ?idxs ?raised ?d)). mn \<le> x"
      using ge by (intro takeDown_lower) simp_all
    with True show ?thesis by (simp only: softFloor_unfold if_True)
  qed
qed

lemma finalAdjust_length: "length (finalAdjust rt mx needed ph) = length ph"
  by (simp add: finalAdjust_def Let_def addHeadroom_length takeDown_length)

lemma finalAdjust_sum:
  assumes perm: "\<forall>k xs. mset (shuffle rt k xs) = mset xs"
    and nn: "\<forall>x \<in> set ph. 0 \<le> x" and needed: "0 \<le> needed" "needed \<le> sum_list ph"
  shows "sum_list (finalAdjust rt mx needed ph) = needed"
proof (cases "needed - sum_list ph = 0")
  case True
  then show ?thesis by (simp add: finalAdjust_def)
next
  case False
  with needed have neg: "needed - sum_list ph < 0" by simp
  let ?idxs = "shuffle rt 2 [0..<length ph]"
  have p: "mset ?idxs = mset [0..<length ph]" using perm by simp
  have "sum_list (fst (takeDown 0 ?idxs ph (- (needed - sum_list ph)))) = sum_list ph - (- (needed - sum_list ph))"
    using neg needed by (intro takeDown_all[OF p nn]) simp_all
  with neg show ?thesis by (simp add: finalAdjust_def Let_def)
qed

lemma finalAdjust_same: "sum_list ph = needed \<Longrightarrow> finalAdjust rt mx needed ph = ph"
  by (simp add: finalAdjust_def)

subsection \<open>The weights of the hours\<close>

lemma weightsFrom_finite:
  "weightsFrom rand s (Finite h) i ws = Some (ws @ map (hourWeight rand s) [i..<nat h])"
proof (induction "nat h - i" arbitrary: i ws)
  case 0
  then have "\<not> int i < h" by simp
  moreover from 0 have "[i..<nat h] = []" by simp
  ultimately show ?case by (subst weightsFrom.simps) simp
next
  case (Suc n)
  then have lt: "int i < h" and i: "i < nat h" by simp_all
  from Suc have "n = nat h - (i + 1)" by simp
  from Suc(1)[OF this]
  have "weightsFrom rand s (Finite h) (i + 1) (ws @ [hourWeight rand s i]) =
        Some ((ws @ [hourWeight rand s i]) @ map (hourWeight rand s) [i + 1..<nat h])" .
  with lt i show ?case
    by (subst weightsFrom.simps) (simp add: upt_conv_Cons)
qed

lemma weightsFrom_returns:
  assumes "weightsFrom rand s hours i ws = Some y"
  shows "hours \<noteq> PlusInfinity"
proof -
  note step = weightsFrom.raw_induct[where P = "\<lambda>rand s hours i ws y. hours \<noteq> PlusInfinity"]
  show ?thesis by (rule step[OF _ assms]) (auto split: if_splits)
qed

lemma generatePerHourWeights_Finite:
  "generatePerHourWeights rand s (Finite h) = Some (map (hourWeight rand s) [0..<nat h])"
  by (simp add: generatePerHourWeights_def weightsFrom_finite)

lemma generatePerHourWeights_PlusInfinity: "generatePerHourWeights rand s PlusInfinity = None"
proof (cases "generatePerHourWeights rand s PlusInfinity")
  case (Some y)
  then show ?thesis
    using weightsFrom_returns[of rand s PlusInfinity 0 "[]" y]
    by (simp add: generatePerHourWeights_def)
qed simp

lemma generatePerHourWeights_other:
  "generatePerHourWeights rand s MinusInfinity = Some []" "generatePerHourWeights rand s NaN = Some []"
  by (simp_all add: generatePerHourWeights_def weightsFrom.simps)

lemma weekdayBias_pos: "k < 7 \<Longrightarrow> 0 < weekdayBias ! k"
proof -
  assume "k < 7"
  then have "weekdayBias ! k \<in> set weekdayBias" by (intro nth_mem) (simp add: weekdayBias_def)
  then show ?thesis by (auto simp: weekdayBias_def)
qed

lemma hourWeight_pos:
  assumes "0 \<le> rand i"
  shows "0 < hourWeight rand startMs i"
proof -
  let ?d = "startMs + int i * 3600000"
  have "- 1 \<le> sin ((2 * pi * (real_of_int (getUTCHours ?d) + 2)) / 24)" by simp
  moreover have e: "(0.95::real) = 95 / 100" "(0.35::real) = 35 / 100" by simp_all
  ultimately have diurnal: "0 < 0.95 + 0.35 * sin ((2 * pi * (real_of_int (getUTCHours ?d) + 2)) / 24)"
    unfolding e by linarith
  have "nat (getUTCDay ?d) < 7" by (simp add: getUTCDay_def)
  then have bias: "0 < weekdayBias ! nat (getUTCDay ?d)" by (rule weekdayBias_pos)
  have noise: "0 < 0.9 + rand i * 0.3" using assms by linarith
  from diurnal bias noise show ?thesis
    by (simp add: hourWeight_def Let_def)
qed

text \<open>
  The weights \<^verbatim>\<open>generateSchedule\<close> computes under a finite span, whatever the noise is:
  one positive weight per hour.
\<close>

lemma weights_of_span:
  assumes w: "generatePerHourWeights (random rt) startMs (Finite hours) = Some weights"
    and rnd: "\<forall>i. 0 \<le> random rt i"
  shows "length weights = nat hours" and "\<forall>w \<in> set weights. 0 \<le> w"
proof -
  have "0 \<le> hourWeight (random rt) startMs i" for i
    using hourWeight_pos[of "random rt" i startMs] rnd by (simp add: less_imp_le)
  with w show "length weights = nat hours" and "\<forall>w \<in> set weights. 0 \<le> w"
    by (auto simp: generatePerHourWeights_Finite)
qed

subsection \<open>The hour span and the total\<close>

lemma ceilDiv_nonneg: "0 \<le> a \<Longrightarrow> 0 \<le> b \<Longrightarrow> 0 \<le> ceilDiv a b"
  unfolding ceilDiv_def by (cases "b = 0") (simp_all add: div_nonpos_pos_le0)

lemma ceilDiv_ge: "0 < b \<Longrightarrow> a \<le> ceilDiv a b * b"
proof -
  assume b: "0 < b"
  have "(- a) div b * b + (- a) mod b = - a" by simp
  moreover have "0 \<le> (- a) mod b" using b by simp
  ultimately have "(- a) div b * b \<le> - a" by linarith
  then show ?thesis by (simp add: ceilDiv_def)
qed

text \<open>The span for valid dates and a finite total.\<close>

lemma spanHours_valid:
  assumes start: "validDate rt (startTimeUtc cfg)" and stop: "validDate rt (endTimeUtc cfg)"
    and total: "totalMessagesNeeded cfg = Finite needed"
  shows "spanHours rt cfg =
     (let hours = max 1 (ceilDiv (parseDate rt (endTimeUtc cfg) - parseDate rt (startTimeUtc cfg)) 3600000);
          maxPossible = hours * maxPerHour cfg
      in if maxPossible < needed
         then if maxPerHour cfg = 0 then PlusInfinity
              else Finite (hours + ceilDiv (needed - maxPossible) (maxPerHour cfg))
         else Finite hours)"
  using start stop by (simp add: spanHours_def getTime_def total Let_def)

lemma spanHours_invalid:
  "\<not> validDate rt (startTimeUtc cfg) \<or> \<not> validDate rt (endTimeUtc cfg) \<Longrightarrow> spanHours rt cfg = NaN"
  by (auto simp: spanHours_def getTime_def Let_def)

text \<open>With a positive \<^verbatim>\<open>maxPerHour\<close> the extended span is finite and holds the total.\<close>

lemma spanHours_holds_total:
  assumes start: "validDate rt (startTimeUtc cfg)" and stop: "validDate rt (endTimeUtc cfg)"
    and total: "totalMessagesNeeded cfg = Finite needed"
    and mx: "0 < maxPerHour cfg"
  shows "\<exists>hours. spanHours rt cfg = Finite hours \<and> 1 \<le> hours \<and> needed \<le> hours * maxPerHour cfg"
proof -
  let ?h = "max 1 (ceilDiv (parseDate rt (endTimeUtc cfg) - parseDate rt (startTimeUtc cfg)) 3600000)"
  show ?thesis
  proof (cases "?h * maxPerHour cfg < needed")
    case False
    then show ?thesis using mx by (simp add: spanHours_valid[OF start stop total] Let_def)
  next
    case True
    let ?extra = "ceilDiv (needed - ?h * maxPerHour cfg) (maxPerHour cfg)"
    have "needed - ?h * maxPerHour cfg \<le> ?extra * maxPerHour cfg"
      by (rule ceilDiv_ge[OF mx])
    then have holds: "needed \<le> (?h + ?extra) * maxPerHour cfg"
      by (simp add: algebra_simps)
    have "0 \<le> ?extra" using True mx by (intro ceilDiv_nonneg) simp_all
    then have "1 \<le> ?h + ?extra" by simp
    with True holds mx show ?thesis
      by (simp add: spanHours_valid[OF start stop total] Let_def)
  qed
qed

text \<open>The totals of configurations whose amounts are small integers.\<close>

lemma total_of_integers:
  assumes "0 \<le> n" "n < 2 ^ 53" "a \<noteq> 0" "real_of_int t / real_of_int a = real_of_int n"
    and "targetTotalUsd cfg = Finite (real_of_int t)" "amountPerMessageUsd cfg = Finite (real_of_int a)"
  shows "totalMessagesNeeded cfg = Finite n"
proof -
  have "doubleOf (real_of_int n) = Finite (real_of_int n)"
    using assms(1,2) by (rule doubleOf_of_int)
  with assms(3-) show ?thesis by (simp add: totalMessagesNeeded_def)
qed

text \<open>
  With integer amounts the count of \<^verbatim>\<open>generateSchedule\<close> is the count of
  \<^verbatim>\<open>generateFullSchedule\<close>: the product and the quotient are exact.
\<close>

lemma normalConfig_total_integers:
  assumes amount: "amountPerMessageUsd cfg = Finite (real_of_int a)" and a: "0 < a"
    and r: "0 \<le> r" "r * a < 2 ^ 53"
  shows "totalMessagesNeeded (normalConfig cfg normalStartIso (Finite r)) = Finite r"
proof -
  have ra: "0 \<le> r * a" using a r by simp
  have "jsTimes (Finite r) (Finite (real_of_int a)) = Finite (real_of_int (r * a))"
    using doubleOf_of_int[OF ra r(2)] by (simp only: jsTimes.simps of_int_mult)
  then have t: "targetTotalUsd (normalConfig cfg normalStartIso (Finite r)) = Finite (real_of_int (r * a))"
    by (simp add: normalConfig_def amount del: jsTimes.simps)
  have am: "amountPerMessageUsd (normalConfig cfg normalStartIso (Finite r)) = Finite (real_of_int a)"
    by (simp add: normalConfig_def amount)
  have "r \<le> r * a" using a r(1) by (simp add: mult_le_cancel_left1)
  with r(2) have "r < 2 ^ 53" by linarith
  with r(1) a show ?thesis
    by (intro total_of_integers[OF _ _ _ _ t am]) simp_all
qed

subsection \<open>The allocation\<close>

lemma jsRound_nonneg: "0 \<le> x \<Longrightarrow> 0 \<le> jsRound x"
  by (simp add: jsRound_def)

lemma initialPerHour_length: "length (initialPerHour weights needed) = length weights"
  by (simp add: initialPerHour_def Let_def)

lemma initialPerHour_nonneg:
  assumes pos: "\<forall>w \<in> set weights. 0 \<le> w" and needed: "0 \<le> needed"
  shows "\<forall>x \<in> set (initialPerHour weights needed). 0 \<le> x"
proof -
  from pos have s: "0 \<le> sum_list weights" by (intro sum_list_nonneg) simp
  have "0 \<le> jsRound ((w / sum_list weights) * real_of_int needed)" if "w \<in> set weights" for w
    using that pos s needed by (intro jsRound_nonneg mult_nonneg_nonneg divide_nonneg_nonneg) simp_all
  then show ?thesis
    by (simp add: initialPerHour_def Let_def)
qed

lemma perHourAllocation_length: "length (perHourAllocation rt cfg weights needed) = length weights"
  by (simp add: perHourAllocation_def finalAdjust_length softFloor_length rebalance_length
        initialPerHour_length)

text \<open>
  The allocation sums to the total: for a finite total that is not negative, on a span
  that holds it at \<^verbatim>\<open>maxPerHour\<close>, whatever the weights' noise and the shuffles are.
\<close>

lemma allocation_sum:
  assumes w: "generatePerHourWeights (random rt) startMs (Finite hours) = Some weights"
    and needed: "0 \<le> needed" and mx: "0 \<le> maxPerHour cfg"
    and rnd: "\<forall>i. 0 \<le> random rt i"
    and perm: "\<forall>k xs. mset (shuffle rt k xs) = mset xs"
    and feasible: "needed \<le> hours * maxPerHour cfg"
  shows "sum_list (perHourAllocation rt cfg weights needed) = needed"
proof -
  let ?p0 = "initialPerHour weights needed"
  let ?p1 = "rebalance rt (maxPerHour cfg) needed ?p0"
  let ?p2 = "softFloor rt (minPerHour cfg) ?p1"
  have len: "length ?p0 = nat hours"
    using weights_of_span(1)[OF w rnd] by (simp add: initialPerHour_length)
  have cap: "needed \<le> int (length ?p0) * maxPerHour cfg"
  proof (cases "0 \<le> hours")
    case True
    with feasible show ?thesis by (simp add: len)
  next
    case False
    then have "hours * maxPerHour cfg \<le> 0" using mx by (simp add: mult_nonpos_nonneg)
    with feasible needed False show ?thesis by (simp add: len)
  qed
  have nn0: "\<forall>x \<in> set ?p0. 0 \<le> x"
    using weights_of_span(2)[OF w rnd] needed by (rule initialPerHour_nonneg)
  have s1: "sum_list ?p1 = needed"
    using perm nn0 needed cap mx by (intro rebalance_sum) simp_all
  have nn1: "\<forall>x \<in> set ?p1. 0 \<le> x" using nn0 mx by (rule rebalance_nonneg)
  have s2: "needed \<le> sum_list ?p2" using softFloor_sum_ge[OF perm, of ?p1 "minPerHour cfg"] s1 by simp
  have nn2: "\<forall>x \<in> set ?p2. 0 \<le> x" using nn1 by (rule softFloor_nonneg)
  have "sum_list (finalAdjust rt (maxPerHour cfg) needed ?p2) = needed"
    using perm nn2 needed s2 by (rule finalAdjust_sum)
  then show ?thesis by (simp add: perHourAllocation_def)
qed

text \<open>On a span of one hour the allocation is the total.\<close>

lemma allocation_single:
  assumes w: "generatePerHourWeights (random rt) startMs (Finite 1) = Some weights"
    and needed: "0 \<le> needed" and mx: "0 \<le> maxPerHour cfg"
    and rnd: "\<forall>i. 0 \<le> random rt i"
    and perm: "\<forall>k xs. mset (shuffle rt k xs) = mset xs"
    and feasible: "needed \<le> maxPerHour cfg"
  shows "perHourAllocation rt cfg weights needed = [needed]"
proof -
  have "length (perHourAllocation rt cfg weights needed) = 1"
    using weights_of_span(1)[OF w rnd] by (simp add: perHourAllocation_length)
  then obtain x where x: "perHourAllocation rt cfg weights needed = [x]"
    by (cases "perHourAllocation rt cfg weights needed") simp_all
  have "sum_list (perHourAllocation rt cfg weights needed) = needed"
    using w needed mx rnd perm by (rule allocation_sum) (use feasible in simp)
  with x show ?thesis by simp
qed

lemma shares_of_two: "initialPerHour [a, b] n = [jsRound (a / (a + b) * real_of_int n), jsRound (b / (a + b) * real_of_int n)]"
  by (simp add: initialPerHour_def Let_def)

lemma shares_of_three:
  "initialPerHour [a, b, c] n =
     [jsRound (a / (a + b + c) * real_of_int n), jsRound (b / (a + b + c) * real_of_int n),
      jsRound (c / (a + b + c) * real_of_int n)]"
  by (simp add: initialPerHour_def Let_def add.assoc)

subsection \<open>What generateSchedule returns\<close>

lemma enforceUniqueIntervals_length: "length (enforceUniqueIntervals xs) = length xs"
proof -
  have "length (timesMs (foldl (\<lambda>st i. adjustAt i st) st is)) = length (timesMs st)" for st "is"
    by (induction "is" arbitrary: st) (simp_all add: adjustAt_length)
  then show ?thesis by (simp add: enforceUniqueIntervals_def)
qed

lemma generateSchedule_returns:
  assumes start: "validDate rt (startTimeUtc cfg)"
    and span: "spanHours rt cfg = Finite hours"
    and total: "totalMessagesNeeded cfg = Finite needed"
  shows "\<exists>weights.
     generatePerHourWeights (random rt) (parseDate rt (startTimeUtc cfg)) (Finite hours) = Some weights \<and>
     generateSchedule rt cfg =
       Some (Inr \<lparr>g_schedule =
                    enforceUniqueIntervals (sort_key (toISOString rt)
                      (concat (map (\<lambda>hr. map (\<lambda>s. parseDate rt (startTimeUtc cfg) + int hr * 3600000 + s * 1000)
                                          (sampleUniqueSecondsWithinHour rt hr
                                             (perHourAllocation rt cfg weights needed ! hr)))
                                 [0..<nat hours]))),
                  g_effectiveEnd = parseDate rt (startTimeUtc cfg) + hours * 3600000,
                  g_totalMessagesNeeded = Finite needed\<rparr>)"
  using start by (simp add: generateSchedule_def span total generatePerHourWeights_Finite Let_def)

lemma generateSchedule_invalid_start:
  "\<not> validDate rt (startTimeUtc cfg) \<Longrightarrow> generateSchedule rt cfg = Some (Inl RangeError)"
  by (simp add: generateSchedule_def Let_def)

lemma generateSchedule_finite_span:
  assumes "validDate rt (startTimeUtc cfg)" "spanHours rt cfg = Finite hours"
  shows "\<exists>g. generateSchedule rt cfg = Some (Inr g) \<and>
             g_effectiveEnd g = parseDate rt (startTimeUtc cfg) + hours * 3600000"
  using assms by (simp add: generateSchedule_def generatePerHourWeights_Finite Let_def)

lemma generateSchedule_infinite_span:
  assumes "validDate rt (startTimeUtc cfg)" "spanHours rt cfg = PlusInfinity"
  shows "generateSchedule rt cfg = None"
  using assms by (simp add: generateSchedule_def generatePerHourWeights_PlusInfinity Let_def)

lemma generateSchedule_no_span:
  assumes "validDate rt (startTimeUtc cfg)" "spanHours rt cfg = NaN \<or> spanHours rt cfg = MinusInfinity"
  shows "generateSchedule rt cfg = Some (Inl RangeError)"
  using assms by (auto simp: generateSchedule_def generatePerHourWeights_other Let_def)

lemma normalConfig_start [simp]: "startTimeUtc (normalConfig cfg normalStartIso remaining) = normalStartIso"
  by (simp add: normalConfig_def)

subsection \<open>The samples\<close>

lemma sample_validDate:
  "validDate sampleRuntime ''2025-01-01T00:00:00Z''"
  "validDate sampleRuntime ''2025-01-01T01:00:00Z''"
  "validDate sampleRuntime ''2025-01-01T02:00:00Z''"
  "validDate sampleRuntime ''2025-01-01T03:00:00Z''"
  "validDate sampleRuntime ''2025-01-01T00:10:00.000Z''"
  by (simp_all add: sampleRuntime_def sampleDates_def)

lemma sample_parseDate:
  "parseDate sampleRuntime ''2025-01-01T00:00:00Z'' = sampleStart"
  "parseDate sampleRuntime ''2025-01-01T01:00:00Z'' = sampleStart + 3600000"
  "parseDate sampleRuntime ''2025-01-01T02:00:00Z'' = sampleStart + 7200000"
  "parseDate sampleRuntime ''2025-01-01T03:00:00Z'' = sampleStart + 10800000"
  "parseDate sampleRuntime ''2025-01-01T00:10:00.000Z'' = sampleStart + 600000"
  by (simp_all add: sampleRuntime_def sampleDates_def)

lemma sample_random: "\<forall>i. 0 \<le> random sampleRuntime i"
  by (simp add: sampleRuntime_def)

lemma sample_shuffle: "\<forall>k xs. mset (shuffle sampleRuntime k xs) = mset xs"
  by (simp add: sampleRuntime_def)

lemma sample_seconds:
  "0 \<le> cnt \<Longrightarrow> cnt < 3600 \<Longrightarrow> length (sampleUniqueSecondsWithinHour sampleRuntime h cnt) = nat cnt"
  by (simp add: sampleUniqueSecondsWithinHour_def sampleRuntime_def)

lemma sample_fields:
  "startTimeUtc (doubles sampleConfig) = ''2025-01-01T00:00:00Z''"
  "endTimeUtc (doubles sampleConfig) = ''2025-01-01T01:00:00Z''"
  "targetTotalUsd (doubles sampleConfig) = Finite 100"
  "amountPerMessageUsd (doubles sampleConfig) = Finite 100"
  "minPerHour (doubles sampleConfig) = 0"
  "maxPerHour (doubles sampleConfig) = 60"
  "specialPhase (doubles sampleConfig) = None"
  by (simp_all add: doubles_def sampleConfig_def)

lemma sample_total: "totalMessagesNeeded (doubles sampleConfig) = Finite 1"
  by (rule total_of_integers[where t = 100 and a = 100]) (simp_all add: sample_fields)

lemma sample_span: "spanHours sampleRuntime (doubles sampleConfig) = Finite 1"
  by (simp add: spanHours_valid[OF _ _ sample_total] sample_fields sample_validDate
        sample_parseDate ceilDiv_def Let_def)

text \<open>The plan of the sample configuration: one buy, five seconds into its hour.\<close>

lemma sample_plan:
  "generateFullSchedule sampleRuntime (doubles sampleConfig) =
     Some (Inr ([\<lparr>ev_at = sampleStart + 5000, ev_kind = Buy, ev_text = None, ev_image = None\<rparr>],
                sampleStart + 3600000))"
proof -
  let ?cfg = "doubles sampleConfig"
  have sp: "specialPhaseEntries sampleRuntime ?cfg = Inr ([], Finite 1, ''2025-01-01T00:00:00Z'')"
    by (simp add: specialPhaseEntries_def sample_fields sample_total)
  have "jsTimes (Finite 1) (Finite 100) = Finite 100"
    by (simp add: doubleOf_numeral)
  then have nc: "normalConfig ?cfg ''2025-01-01T00:00:00Z'' (Finite 1) = ?cfg"
    by (simp add: normalConfig_def sample_fields)
  from generateSchedule_returns[OF _ sample_span sample_total] obtain weights where
    w: "generatePerHourWeights (random sampleRuntime) (parseDate sampleRuntime (startTimeUtc ?cfg))
          (Finite 1) = Some weights"
    and g: "generateSchedule sampleRuntime ?cfg =
       Some (Inr \<lparr>g_schedule =
                    enforceUniqueIntervals (sort_key (toISOString sampleRuntime)
                      (concat (map (\<lambda>hr. map (\<lambda>s. parseDate sampleRuntime (startTimeUtc ?cfg) + int hr * 3600000 + s * 1000)
                                          (sampleUniqueSecondsWithinHour sampleRuntime hr
                                             (perHourAllocation sampleRuntime ?cfg weights 1 ! hr)))
                                 [0..<nat 1]))),
                  g_effectiveEnd = parseDate sampleRuntime (startTimeUtc ?cfg) + 1 * 3600000,
                  g_totalMessagesNeeded = Finite 1\<rparr>)"
    by (auto simp: sample_fields sample_validDate)
  have a: "perHourAllocation sampleRuntime ?cfg weights 1 = [1]"
    using w by (rule allocation_single) (simp_all add: sample_random sample_shuffle sample_fields)
  have secs: "sampleUniqueSecondsWithinHour sampleRuntime 0 1 = [5]"
    by (simp add: sampleUniqueSecondsWithinHour_def sampleRuntime_def)
  have g': "generateSchedule sampleRuntime ?cfg =
       Some (Inr \<lparr>g_schedule = [sampleStart + 5000], g_effectiveEnd = sampleStart + 3600000,
                  g_totalMessagesNeeded = Finite 1\<rparr>)"
    by (simp add: g a secs sample_fields sample_parseDate enforceUniqueIntervals_def)
  show ?thesis
    by (simp add: generateFullSchedule_def sp nc g')
qed

lemma sample_weight_0:
  "hourWeight (random sampleRuntime) sampleStart 0 = 9 / 8 * (21 / 20) * (21 / 20)"
proof -
  have h: "getUTCHours sampleStart = 0" and d: "nat (getUTCDay sampleStart) = 3"
    by (simp_all add: getUTCHours_def getUTCDay_def sampleStart_def)
  have "2 * pi * (real_of_int 0 + 2) / 24 = pi / 6" by simp
  then have s: "sin (2 * pi * (real_of_int 0 + 2) / 24) = 1 / 2"
    by (simp only: sin_30)
  have "hourWeight (random sampleRuntime) sampleStart 0 =
          (0.95 + 0.35 * sin (2 * pi * (real_of_int 0 + 2) / 24)) * (weekdayBias ! 3)
            * (0.9 + random sampleRuntime 0 * 0.3)"
    by (simp add: hourWeight_def Let_def h d)
  also have "\<dots> = 9 / 8 * (21 / 20) * (21 / 20)"
    by (simp only: s) (simp add: weekdayBias_def sampleRuntime_def)
  finally show ?thesis .
qed

lemma sample_weight_1:
  "hourWeight (random sampleRuntime) sampleStart 1 = (19 / 20 + 7 / 20 * (sqrt 2 / 2)) * (21 / 20) * (21 / 20)"
proof -
  have h: "getUTCHours (sampleStart + 3600000) = 1" and d: "nat (getUTCDay (sampleStart + 3600000)) = 3"
    by (simp_all add: getUTCHours_def getUTCDay_def sampleStart_def)
  have "2 * pi * (real_of_int 1 + 2) / 24 = pi / 4" by simp
  then have s: "sin (2 * pi * (real_of_int 1 + 2) / 24) = sqrt 2 / 2"
    by (simp only: sin_45)
  have "hourWeight (random sampleRuntime) sampleStart 1 =
          (0.95 + 0.35 * sin (2 * pi * (real_of_int 1 + 2) / 24)) * (weekdayBias ! 3)
            * (0.9 + random sampleRuntime 1 * 0.3)"
    by (simp add: hourWeight_def Let_def h d)
  also have "\<dots> = (19 / 20 + 7 / 20 * (sqrt 2 / 2)) * (21 / 20) * (21 / 20)"
    by (simp only: s) (simp add: weekdayBias_def sampleRuntime_def)
  finally show ?thesis .
qed

lemma sample_weight_2:
  "hourWeight (random sampleRuntime) sampleStart 2 = thirdWeight"
proof -
  have h: "getUTCHours (sampleStart + 7200000) = 2" and d: "nat (getUTCDay (sampleStart + 7200000)) = 3"
    by (simp_all add: getUTCHours_def getUTCDay_def sampleStart_def)
  have "2 * pi * (real_of_int 2 + 2) / 24 = pi / 3" by simp
  then have s: "sin (2 * pi * (real_of_int 2 + 2) / 24) = sqrt 3 / 2"
    by (simp only: sin_60)
  have "hourWeight (random sampleRuntime) sampleStart 2 =
          (0.95 + 0.35 * sin (2 * pi * (real_of_int 2 + 2) / 24)) * (weekdayBias ! 3)
            * (0.9 + random sampleRuntime 2 * 0.3)"
    by (simp add: hourWeight_def Let_def h d)
  also have "\<dots> = (19 / 20 + 7 / 20 * (sqrt 3 / 2)) * (21 / 20) * (21 / 20)"
    by (simp only: s) (simp add: weekdayBias_def sampleRuntime_def)
  finally show ?thesis by (simp add: thirdWeight_def)
qed

lemma root_bounds: "141 / 100 < sqrt 2" "sqrt 2 < 1415 / 1000" "173 / 100 < sqrt 3" "sqrt 3 < 174 / 100"
proof -
  show "141 / 100 < sqrt 2" by (rule real_less_rsqrt) (simp add: power2_eq_square)
  show "sqrt 2 < 1415 / 1000" by (rule real_less_lsqrt) (simp_all add: power2_eq_square)
  show "173 / 100 < sqrt 3" by (rule real_less_rsqrt) (simp add: power2_eq_square)
  show "sqrt 3 < 174 / 100" by (rule real_less_lsqrt) (simp_all add: power2_eq_square)
qed

lemma two_hour_weights:
  "generatePerHourWeights (random sampleRuntime) sampleStart (Finite 2) = Some [firstWeight, secondWeight]"
  using sample_weight_0 sample_weight_1
  by (simp add: generatePerHourWeights_Finite upt_rec numeral_2_eq_2 firstWeight_def secondWeight_def)

lemma two_hour_shares: "initialPerHour [firstWeight, secondWeight] 100 = [48, 52]"
proof -
  define s where "s = sqrt 2"
  have b: "141 / 100 < s" "s < 1415 / 1000" using root_bounds by (simp_all add: s_def)
  have w0: "firstWeight = 9 / 8 * (21 / 20) * (21 / 20)" by (simp add: firstWeight_def)
  have w1: "secondWeight = (19 / 20 + 7 / 20 * (s / 2)) * (21 / 20) * (21 / 20)"
    by (simp add: secondWeight_def s_def)
  have pos: "0 < firstWeight + secondWeight" using b by (simp add: w0 w1 add_pos_pos)
  have "jsRound (firstWeight / (firstWeight + secondWeight) * real_of_int 100) = 48"
    unfolding jsRound_def
  proof (rule floor_unique)
    show "real_of_int 48 \<le> firstWeight / (firstWeight + secondWeight) * real_of_int 100 + 1 / 2"
      using pos b by (simp add: field_simps w0 w1)
    show "firstWeight / (firstWeight + secondWeight) * real_of_int 100 + 1 / 2 < real_of_int 48 + 1"
      using pos b by (simp add: field_simps w0 w1)
  qed
  moreover have "jsRound (secondWeight / (firstWeight + secondWeight) * real_of_int 100) = 52"
    unfolding jsRound_def
  proof (rule floor_unique)
    show "real_of_int 52 \<le> secondWeight / (firstWeight + secondWeight) * real_of_int 100 + 1 / 2"
      using pos b by (simp add: field_simps w0 w1)
    show "secondWeight / (firstWeight + secondWeight) * real_of_int 100 + 1 / 2 < real_of_int 52 + 1"
      using pos b by (simp add: field_simps w0 w1)
  qed
  ultimately show ?thesis
    by (simp only: shares_of_two)
qed

lemma three_hour_weights:
  "generatePerHourWeights (random sampleRuntime) sampleStart (Finite 3) =
     Some [firstWeight, secondWeight, thirdWeight]"
proof -
  have u: "[0..<nat 3] = [0, 1, 2]" by (simp add: upt_rec numeral_3_eq_3)
  have w: "hourWeight (random sampleRuntime) sampleStart 0 = firstWeight"
    "hourWeight (random sampleRuntime) sampleStart 1 = secondWeight"
    by (simp_all only: sample_weight_0 sample_weight_1 firstWeight_def secondWeight_def)
  show ?thesis
    by (simp only: generatePerHourWeights_Finite u list.map w sample_weight_2)
qed

lemma three_hour_shares: "initialPerHour [firstWeight, secondWeight, thirdWeight] 100 = [31, 33, 35]"
proof -
  define s where "s = sqrt 2"
  define t where "t = sqrt 3"
  have b: "141 / 100 < s" "s < 1415 / 1000" "173 / 100 < t" "t < 174 / 100"
    using root_bounds by (simp_all add: s_def t_def)
  have w0: "firstWeight = 9 / 8 * (21 / 20) * (21 / 20)" by (simp add: firstWeight_def)
  have w1: "secondWeight = (19 / 20 + 7 / 20 * (s / 2)) * (21 / 20) * (21 / 20)"
    by (simp add: secondWeight_def s_def)
  have w2: "thirdWeight = (19 / 20 + 7 / 20 * (t / 2)) * (21 / 20) * (21 / 20)"
    by (simp add: thirdWeight_def t_def)
  let ?sum = "firstWeight + secondWeight + thirdWeight"
  have pos: "0 < ?sum" using b by (simp add: w0 w1 w2 add_pos_pos)
  have "jsRound (firstWeight / ?sum * real_of_int 100) = 31"
    unfolding jsRound_def
  proof (rule floor_unique)
    show "real_of_int 31 \<le> firstWeight / ?sum * real_of_int 100 + 1 / 2"
      using pos b by (simp add: field_simps w0 w1 w2)
    show "firstWeight / ?sum * real_of_int 100 + 1 / 2 < real_of_int 31 + 1"
      using pos b by (simp add: field_simps w0 w1 w2)
  qed
  moreover have "jsRound (secondWeight / ?sum * real_of_int 100) = 33"
    unfolding jsRound_def
  proof (rule floor_unique)
    show "real_of_int 33 \<le> secondWeight / ?sum * real_of_int 100 + 1 / 2"
      using pos b by (simp add: field_simps w0 w1 w2)
    show "secondWeight / ?sum * real_of_int 100 + 1 / 2 < real_of_int 33 + 1"
      using pos b by (simp add: field_simps w0 w1 w2)
  qed
  moreover have "jsRound (thirdWeight / ?sum * real_of_int 100) = 35"
    unfolding jsRound_def
  proof (rule floor_unique)
    show "real_of_int 35 \<le> thirdWeight / ?sum * real_of_int 100 + 1 / 2"
      using pos b by (simp add: field_simps w0 w1 w2)
    show "thirdWeight / ?sum * real_of_int 100 + 1 / 2 < real_of_int 35 + 1"
      using pos b by (simp add: field_simps w0 w1 w2)
  qed
  ultimately show ?thesis
    by (simp only: shares_of_three)
qed

text \<open>
  Three hours from midnight with a hundred messages to place, between 0 and 60 per hour.
  The rounded shares 31, 33 and 35 miss the total by one, and the first pass gives the
  missing message to the first hour of the shuffled order that has headroom, the third.
\<close>

lemma rebalanced_allocation:
  "totalMessagesNeeded threeHourConfig = Finite 100 \<and>
   spanHours sampleRuntime threeHourConfig = Finite 3 \<and>
   generatePerHourWeights (random sampleRuntime) sampleStart (Finite 3)
     = Some [firstWeight, secondWeight, thirdWeight] \<and>
   initialPerHour [firstWeight, secondWeight, thirdWeight] 100 = [31, 33, 35] \<and>
   perHourAllocation sampleRuntime threeHourConfig [firstWeight, secondWeight, thirdWeight] 100
     = [31, 33, 36]"
proof -
  have f: "minPerHour threeHourConfig = 0" "maxPerHour threeHourConfig = 60"
    "startTimeUtc threeHourConfig = ''2025-01-01T00:00:00Z''"
    "endTimeUtc threeHourConfig = ''2025-01-01T03:00:00Z''"
    "targetTotalUsd threeHourConfig = Finite 10000"
    "amountPerMessageUsd threeHourConfig = Finite 100"
    by (simp_all add: threeHourConfig_def sample_fields)
  have total: "totalMessagesNeeded threeHourConfig = Finite 100"
    by (rule total_of_integers[where t = 10000 and a = 100]) (simp_all add: f)
  have span: "spanHours sampleRuntime threeHourConfig = Finite 3"
    by (simp add: spanHours_valid[OF _ _ total] f sample_validDate sample_parseDate ceilDiv_def Let_def)
  have "perHourAllocation sampleRuntime threeHourConfig [firstWeight, secondWeight, thirdWeight] 100
     = [31, 33, 36]"
    by (simp add: perHourAllocation_def three_hour_shares f rebalance_def softFloor_def
          finalAdjust_def sampleRuntime_def upt_rec numeral_3_eq_3)
  with total span three_hour_weights three_hour_shares show ?thesis by simp
qed

lemma two_hour_fields:
  "startTimeUtc twoHourConfig = ''2025-01-01T00:00:00Z''"
  "endTimeUtc twoHourConfig = ''2025-01-01T02:00:00Z''"
  "targetTotalUsd twoHourConfig = Finite 10000"
  "amountPerMessageUsd twoHourConfig = Finite 100"
  "minPerHour twoHourConfig = 0"
  "maxPerHour twoHourConfig = 60"
  by (simp_all add: twoHourConfig_def sample_fields)

lemma two_hour_total:
  "totalMessagesNeeded (twoHourConfig\<lparr>minPerHour := mn, maxPerHour := mx\<rparr>) = Finite 100"
  by (rule total_of_integers[where t = 10000 and a = 100]) (simp_all add: two_hour_fields)

lemma two_hour_span:
  "100 \<le> 2 * mx \<Longrightarrow> spanHours sampleRuntime (twoHourConfig\<lparr>minPerHour := mn, maxPerHour := mx\<rparr>) = Finite 2"
  by (simp add: spanHours_valid[OF _ _ two_hour_total] two_hour_fields sample_validDate
        sample_parseDate ceilDiv_def Let_def)

subsection \<open>The full plan under a fractional amount\<close>

lemma amount_9999: "doubleOf (9999 / 100) = Finite (7036170730324623 / 2 ^ 46)"
proof -
  have "doubleOf (9999 / 100) = Finite (real_of_int 7036170730324623 / 2 ^ (52 - 6))"
    by (rule doubleOf_eqI) simp_all
  then show ?thesis by simp
qed

lemma quotient_2899: "doubleOf (2899 / (7036170730324623 / 2 ^ 46)) = Finite (8160775652407159 / 2 ^ 48)"
proof -
  have "doubleOf (2899 / (7036170730324623 / 2 ^ 46)) = Finite (real_of_int 8160775652407159 / 2 ^ (52 - 4))"
    by (rule doubleOf_eqI) simp_all
  then show ?thesis by simp
qed

lemma product_29: "doubleOf (29 * (7036170730324623 / 2 ^ 46)) = Finite (6376529724356690 / 2 ^ 41)"
proof -
  have "doubleOf (29 * (7036170730324623 / 2 ^ 46)) = Finite (real_of_int 6376529724356690 / 2 ^ (52 - 11))"
    by (rule doubleOf_eqI) simp_all
  then show ?thesis by simp
qed

lemma quotient_back:
  "doubleOf ((6376529724356690 / 2 ^ 41) / (7036170730324623 / 2 ^ 46)) = Finite (8162774324609025 / 2 ^ 48)"
proof -
  have "doubleOf ((6376529724356690 / 2 ^ 41) / (7036170730324623 / 2 ^ 46))
          = Finite (real_of_int 8162774324609025 / 2 ^ (52 - 4))"
    by (rule doubleOf_eqI) simp_all
  then show ?thesis by simp
qed

lemma fractional_fields:
  "targetTotalUsd fractionalConfig = Finite 2899"
  "amountPerMessageUsd fractionalConfig = Finite (7036170730324623 / 2 ^ 46)"
  by (simp_all add: fractionalConfig_def amount_9999 doubleOf_numeral)

lemma fractional_total: "totalMessagesNeeded fractionalConfig = Finite 29"
proof -
  have nz: "((7036170730324623 / 2 ^ 46 :: real) \<noteq> 0) = True" by simp
  have c: "\<lceil>8160775652407159 / (2::real) ^ 48\<rceil> = 29" by (simp add: ceiling_eq_iff)
  show ?thesis
    by (simp only: totalMessagesNeeded_def fractional_fields jsDivide.simps nz if_True
          quotient_2899 jsCeil.simps c)
qed

lemma fractional_normal_total:
  "totalMessagesNeeded (normalConfig fractionalConfig s (Finite 29)) = Finite 30"
proof -
  have nz: "((7036170730324623 / 2 ^ 46 :: real) \<noteq> 0) = True" by simp
  have c: "\<lceil>8162774324609025 / (2::real) ^ 48\<rceil> = 30" by (simp add: ceiling_eq_iff)
  have f: "targetTotalUsd (normalConfig fractionalConfig s (Finite 29)) =
             jsTimes (Finite 29) (amountPerMessageUsd fractionalConfig)"
    "amountPerMessageUsd (normalConfig fractionalConfig s (Finite 29)) = amountPerMessageUsd fractionalConfig"
    by (simp_all add: normalConfig_def)
  have p: "real_of_int 29 * (7036170730324623 / 2 ^ 46) = 29 * (7036170730324623 / 2 ^ 46)" by simp
  show ?thesis
    by (simp only: totalMessagesNeeded_def f fractional_fields jsTimes.simps p product_29
          jsDivide.simps nz if_True quotient_back jsCeil.simps c)
qed

text \<open>
  Claim C1 fails on the full plan for an amount with a fraction. With a target of 2899 and
  99.99 per message, \<^verbatim>\<open>generateFullSchedule\<close> counts
  \<^verbatim>\<open>Math.ceil(2899 / 99.99)\<close>, 29 messages, and no special phase takes any away. It
  hands \<^verbatim>\<open>generateSchedule\<close> the target \<^verbatim>\<open>29 * 99.99\<close>, the double 2899.71, and
  \<^verbatim>\<open>generateSchedule\<close> counts again: \<^verbatim>\<open>2899.71 / 99.99\<close> is the double next above 29,
  whose ceiling is 30. The allocation sums to 30, and the plan has 30 buys where the
  total less the messages of the special phase is 29.
\<close>

theorem fractional_amount_plans_one_buy_too_many:
  "totalMessagesNeeded fractionalConfig = Finite 29 \<and>
   specialPhaseEntries sampleRuntime fractionalConfig = Inr ([], Finite 29, ''2025-01-01T00:00:00Z'') \<and>
   totalMessagesNeeded (normalConfig fractionalConfig ''2025-01-01T00:00:00Z'' (Finite 29)) = Finite 30 \<and>
   (\<exists>weights.
      generatePerHourWeights (random sampleRuntime) sampleStart
        (spanHours sampleRuntime (normalConfig fractionalConfig ''2025-01-01T00:00:00Z'' (Finite 29)))
        = Some weights \<and>
      perHourAllocation sampleRuntime
        (normalConfig fractionalConfig ''2025-01-01T00:00:00Z'' (Finite 29)) weights 30 = [30]) \<and>
   (\<exists>sched effEnd.
      generateFullSchedule sampleRuntime fractionalConfig = Some (Inr (sched, effEnd)) \<and>
      length sched = 30)"
proof -
  let ?start = "''2025-01-01T00:00:00Z''"
  let ?n = "normalConfig fractionalConfig ?start (Finite 29)"
  have f: "startTimeUtc ?n = ?start" "endTimeUtc ?n = ''2025-01-01T01:00:00Z''"
    "maxPerHour ?n = 60" "specialPhase fractionalConfig = None"
    "startTimeUtc fractionalConfig = ?start"
    by (simp_all add: normalConfig_def fractionalConfig_def sample_fields)
  have sp: "specialPhaseEntries sampleRuntime fractionalConfig = Inr ([], Finite 29, ?start)"
    by (simp add: specialPhaseEntries_def f fractional_total)
  have total: "totalMessagesNeeded ?n = Finite 30" by (rule fractional_normal_total)
  have span: "spanHours sampleRuntime ?n = Finite 1"
    by (simp add: spanHours_valid[OF _ _ total] f sample_validDate sample_parseDate ceilDiv_def Let_def)
  from generateSchedule_returns[OF _ span total] obtain weights where
    w: "generatePerHourWeights (random sampleRuntime) (parseDate sampleRuntime (startTimeUtc ?n))
          (Finite 1) = Some weights"
    and g: "generateSchedule sampleRuntime ?n =
       Some (Inr \<lparr>g_schedule =
                    enforceUniqueIntervals (sort_key (toISOString sampleRuntime)
                      (concat (map (\<lambda>hr. map (\<lambda>s. parseDate sampleRuntime (startTimeUtc ?n) + int hr * 3600000 + s * 1000)
                                          (sampleUniqueSecondsWithinHour sampleRuntime hr
                                             (perHourAllocation sampleRuntime ?n weights 30 ! hr)))
                                 [0..<nat 1]))),
                  g_effectiveEnd = parseDate sampleRuntime (startTimeUtc ?n) + 1 * 3600000,
                  g_totalMessagesNeeded = Finite 30\<rparr>)"
    by (auto simp: f sample_validDate)
  have a: "perHourAllocation sampleRuntime ?n weights 30 = [30]"
    using w by (rule allocation_single) (simp_all add: sample_random sample_shuffle f)
  have len: "length (sampleUniqueSecondsWithinHour sampleRuntime 0 30) = 30"
    by (simp add: sample_seconds)
  obtain sched where gs: "generateSchedule sampleRuntime ?n =
       Some (Inr \<lparr>g_schedule = sched, g_effectiveEnd = sampleStart + 3600000,
                  g_totalMessagesNeeded = Finite 30\<rparr>)" and ls: "length sched = 30"
    using g by (simp add: a f sample_parseDate enforceUniqueIntervals_length len)
  have "generateFullSchedule sampleRuntime fractionalConfig =
          Some (Inr (sort_key ev_at
                       (map (\<lambda>isoTs. \<lparr>ev_at = isoTs, ev_kind = Buy, ev_text = None, ev_image = None\<rparr>) sched),
                     sampleStart + 3600000))"
    by (simp add: generateFullSchedule_def sp gs)
  then have plan: "\<exists>sched effEnd.
      generateFullSchedule sampleRuntime fractionalConfig = Some (Inr (sched, effEnd)) \<and>
      length sched = 30"
    using ls by simp
  have alloc: "\<exists>weights.
      generatePerHourWeights (random sampleRuntime) sampleStart (spanHours sampleRuntime ?n) = Some weights \<and>
      perHourAllocation sampleRuntime ?n weights 30 = [30]"
    using w a by (simp add: span f sample_parseDate)
  from fractional_total sp total alloc plan show ?thesis by blast
qed

subsection \<open>The bounds of an hour\<close>

text \<open>
  Claim C3 as stated fails on the lower bound. One hour, ten messages to place, at least
  30 and at most 60 per hour: the span holds the total, the soft floor raises the hour to
  30, and the final adjustment takes the excess of 20 away again.
\<close>

theorem allocation_below_minPerHour_counterexample:
  "totalMessagesNeeded ((doubles sampleConfig)\<lparr>targetTotalUsd := Finite 1000, minPerHour := 30\<rparr>) = Finite 10 \<and>
   spanHours sampleRuntime ((doubles sampleConfig)\<lparr>targetTotalUsd := Finite 1000, minPerHour := 30\<rparr>) = Finite 1 \<and>
   10 \<le> 1 * maxPerHour ((doubles sampleConfig)\<lparr>targetTotalUsd := Finite 1000, minPerHour := 30\<rparr>) \<and>
   (\<exists>weights.
      generatePerHourWeights (random sampleRuntime) sampleStart (Finite 1) = Some weights \<and>
      perHourAllocation sampleRuntime
        ((doubles sampleConfig)\<lparr>targetTotalUsd := Finite 1000, minPerHour := 30\<rparr>) weights 10 = [10]) \<and>
   \<not> minPerHour ((doubles sampleConfig)\<lparr>targetTotalUsd := Finite 1000, minPerHour := 30\<rparr>) \<le> 10"
proof -
  let ?cfg = "(doubles sampleConfig)\<lparr>targetTotalUsd := Finite 1000, minPerHour := 30\<rparr>"
  have t: "totalMessagesNeeded ?cfg = Finite 10"
    by (rule total_of_integers[where t = 1000 and a = 100]) (simp_all add: sample_fields)
  have h: "spanHours sampleRuntime ?cfg = Finite 1"
    by (simp add: spanHours_valid[OF _ _ t] sample_fields sample_validDate sample_parseDate
          ceilDiv_def Let_def)
  obtain weights where w: "generatePerHourWeights (random sampleRuntime) sampleStart (Finite 1) = Some weights"
    by (simp add: generatePerHourWeights_Finite)
  have "perHourAllocation sampleRuntime ?cfg weights 10 = [10]"
    using w by (rule allocation_single) (simp_all add: sample_random sample_shuffle sample_fields)
  with w t h show ?thesis by (simp add: sample_fields)
qed

text \<open>
  Claim C3, as amended. Let the total be finite and not negative, the span hold it at
  \<^verbatim>\<open>maxPerHour\<close> and be filled by it at \<^verbatim>\<open>minPerHour\<close> (hours times \<^verbatim>\<open>minPerHour\<close> is at
  most the total). Then the allocation has one entry per hour of the span, and every entry
  is at least \<^verbatim>\<open>minPerHour\<close>, whatever the weights' noise and the shuffles are.
\<close>

theorem allocation_at_least_minPerHour:
  assumes total: "totalMessagesNeeded cfg = Finite needed" and span: "spanHours rt cfg = Finite hours"
    and w: "generatePerHourWeights (random rt) (parseDate rt (startTimeUtc cfg)) (Finite hours) = Some weights"
    and needed: "0 \<le> needed"
    and rnd: "\<forall>i. 0 \<le> random rt i \<and> random rt i < 1"
    and perm: "\<forall>k xs. mset (shuffle rt k xs) = mset xs"
    and feasible: "needed \<le> hours * maxPerHour cfg"
    and filled: "hours * minPerHour cfg \<le> needed"
  shows "length (perHourAllocation rt cfg weights needed) = nat hours \<and>
         (\<forall>h < nat hours. minPerHour cfg \<le> perHourAllocation rt cfg weights needed ! h)"
proof (cases "0 \<le> maxPerHour cfg")
  case False
  have "hours \<le> 0"
  proof (rule ccontr)
    assume "\<not> hours \<le> 0"
    with False have "hours * maxPerHour cfg < 0" by (simp add: mult_pos_neg)
    with feasible needed show False by simp
  qed
  moreover have "length (perHourAllocation rt cfg weights needed) = nat hours"
    using weights_of_span(1)[OF w] rnd by (simp add: perHourAllocation_length)
  ultimately show ?thesis by simp
next
  case mx: True
  let ?p0 = "initialPerHour weights needed"
  let ?p1 = "rebalance rt (maxPerHour cfg) needed ?p0"
  let ?p2 = "softFloor rt (minPerHour cfg) ?p1"
  have rnd': "\<forall>i. 0 \<le> random rt i" using rnd by simp
  have len: "length ?p0 = nat hours"
    using weights_of_span(1)[OF w rnd'] by (simp add: initialPerHour_length)
  have cap: "needed \<le> int (length ?p0) * maxPerHour cfg"
  proof (cases "0 \<le> hours")
    case True
    with feasible show ?thesis by (simp add: len)
  next
    case False
    then have "hours * maxPerHour cfg \<le> 0" using mx by (simp add: mult_nonpos_nonneg)
    with feasible needed False show ?thesis by (simp add: len)
  qed
  have nn0: "\<forall>x \<in> set ?p0. 0 \<le> x"
    using weights_of_span(2)[OF w rnd'] needed by (rule initialPerHour_nonneg)
  have s1: "sum_list ?p1 = needed"
    using perm nn0 needed cap mx by (intro rebalance_sum) simp_all
  have enough: "int (length ?p1) * minPerHour cfg \<le> sum_list ?p1"
  proof (cases "0 \<le> hours")
    case True
    with filled show ?thesis by (simp add: s1 rebalance_length len)
  next
    case False
    with needed show ?thesis by (simp add: s1 rebalance_length len)
  qed
  have s2: "sum_list ?p2 = needed" using softFloor_exact(1)[OF perm enough] s1 by simp
  have l2: "\<forall>x \<in> set ?p2. minPerHour cfg \<le> x" using softFloor_exact(2)[OF perm enough] .
  have p: "perHourAllocation rt cfg weights needed = ?p2"
    using finalAdjust_same[OF s2] by (simp add: perHourAllocation_def)
  have l: "length ?p2 = nat hours" by (simp add: softFloor_length rebalance_length len)
  from l2 l show ?thesis by (simp add: p)
qed

text \<open>
  Two hours from midnight with a hundred messages to place. The weights give the first
  hour 48 and the second 52, which is the total, so that the first pass does not run. With
  at least 50 per hour and at most 60, the soft floor raises the first hour to 50 and takes
  the two messages from the second.
\<close>

lemma floored_allocation:
  "perHourAllocation sampleRuntime (twoHourConfig\<lparr>minPerHour := 50, maxPerHour := 60\<rparr>)
     [firstWeight, secondWeight] 100 = [50, 50]"
  by (simp add: perHourAllocation_def two_hour_shares rebalance_def softFloor_def finalAdjust_def
        sampleRuntime_def upt_rec numeral_2_eq_2)

theorem allocation_at_least_minPerHour_witness:
  "totalMessagesNeeded (twoHourConfig\<lparr>minPerHour := 50, maxPerHour := 60\<rparr>) = Finite 100 \<and>
   spanHours sampleRuntime (twoHourConfig\<lparr>minPerHour := 50, maxPerHour := 60\<rparr>) = Finite 2 \<and>
   generatePerHourWeights (random sampleRuntime) sampleStart (Finite 2) = Some [firstWeight, secondWeight] \<and>
   initialPerHour [firstWeight, secondWeight] 100 = [48, 52] \<and>
   perHourAllocation sampleRuntime (twoHourConfig\<lparr>minPerHour := 50, maxPerHour := 60\<rparr>)
     [firstWeight, secondWeight] 100 = [50, 50] \<and>
   minPerHour (twoHourConfig\<lparr>minPerHour := 50, maxPerHour := 60\<rparr>)
     \<le> perHourAllocation sampleRuntime (twoHourConfig\<lparr>minPerHour := 50, maxPerHour := 60\<rparr>)
          [firstWeight, secondWeight] 100 ! 0 \<and>
   minPerHour (twoHourConfig\<lparr>minPerHour := 50, maxPerHour := 60\<rparr>)
     \<le> perHourAllocation sampleRuntime (twoHourConfig\<lparr>minPerHour := 50, maxPerHour := 60\<rparr>)
          [firstWeight, secondWeight] 100 ! 1"
proof -
  let ?cfg = "twoHourConfig\<lparr>minPerHour := 50, maxPerHour := 60\<rparr>"
  have total: "totalMessagesNeeded ?cfg = Finite 100" by (rule two_hour_total)
  have span: "spanHours sampleRuntime ?cfg = Finite 2" by (rule two_hour_span) simp
  have w: "generatePerHourWeights (random sampleRuntime) (parseDate sampleRuntime (startTimeUtc ?cfg))
             (Finite 2) = Some [firstWeight, secondWeight]"
    by (simp add: two_hour_fields sample_parseDate two_hour_weights)
  have rnd: "\<forall>i. 0 \<le> random sampleRuntime i \<and> random sampleRuntime i < 1"
    by (simp add: sampleRuntime_def)
  have feasible: "100 \<le> 2 * maxPerHour ?cfg" and filled: "2 * minPerHour ?cfg \<le> 100"
    by simp_all
  note low = allocation_at_least_minPerHour[OF total span w _ rnd sample_shuffle feasible filled]
  have "minPerHour ?cfg \<le> perHourAllocation sampleRuntime ?cfg [firstWeight, secondWeight] 100 ! 0"
    "minPerHour ?cfg \<le> perHourAllocation sampleRuntime ?cfg [firstWeight, secondWeight] 100 ! 1"
    using low by simp_all
  with total span two_hour_weights two_hour_shares floored_allocation show ?thesis by blast
qed

text \<open>
  The upper bound of claim C3 is left out of the amended claim: the clamp to
  \<^verbatim>\<open>maxPerHour\<close> stands under \<^verbatim>\<open>if (currentTotal !== totalMessagesNeeded)\<close>, and no
  later pass lowers an hour that is above \<^verbatim>\<open>maxPerHour\<close> when the rounded shares
  already sum to the total. On the same two hours with at most 50 per hour, which hold
  the hundred messages, the second hour keeps its 52.
\<close>

lemma allocation_above_maxPerHour:
  "totalMessagesNeeded (twoHourConfig\<lparr>minPerHour := 0, maxPerHour := 50\<rparr>) = Finite 100 \<and>
   spanHours sampleRuntime (twoHourConfig\<lparr>minPerHour := 0, maxPerHour := 50\<rparr>) = Finite 2 \<and>
   100 \<le> 2 * maxPerHour (twoHourConfig\<lparr>minPerHour := 0, maxPerHour := 50\<rparr>) \<and>
   perHourAllocation sampleRuntime (twoHourConfig\<lparr>minPerHour := 0, maxPerHour := 50\<rparr>)
     [firstWeight, secondWeight] 100 = [48, 52] \<and>
   \<not> 52 \<le> maxPerHour (twoHourConfig\<lparr>minPerHour := 0, maxPerHour := 50\<rparr>)"
proof -
  have "perHourAllocation sampleRuntime (twoHourConfig\<lparr>minPerHour := 0, maxPerHour := 50\<rparr>)
     [firstWeight, secondWeight] 100 = [48, 52]"
    by (simp add: perHourAllocation_def two_hour_shares rebalance_def softFloor_def finalAdjust_def)
  moreover have "spanHours sampleRuntime (twoHourConfig\<lparr>minPerHour := 0, maxPerHour := 50\<rparr>) = Finite 2"
    by (rule two_hour_span) simp
  ultimately show ?thesis by (simp add: two_hour_total)
qed

subsection \<open>The effective end\<close>

lemma digitChar_0_1: "digitChar 0 = CHR ''0''" "digitChar (Suc 0) = CHR ''1''"
proof -
  have "of_char (CHR ''0'') = (48::nat)" "of_char (CHR ''1'') = (49::nat)" by simp_all
  then have "char_of (48::nat) = CHR ''0''" "char_of (49::nat) = CHR ''1''"
    by (metis char_of_char)+
  then show "digitChar 0 = CHR ''0''" "digitChar (Suc 0) = CHR ''1''"
    by (simp_all add: digitChar_def)
qed

lemma sample_iso_10: "toISOString sampleRuntime (sampleStart + 600000) = ''2025-01-01T00:10:00.000Z''"
  by (simp add: sampleRuntime_def sampleISOString_def twoDigits_def digitChar_0_1 Let_def)

lemma launch_total: "totalMessagesNeeded (launchConfig burst) = Finite 3"
  by (rule total_of_integers[where t = 300 and a = 100]) (simp_all add: launchConfig_def sample_fields)

lemma launch_fields:
  "specialPhase (launchConfig burst) = Some (launchPhase burst)"
  "startTimeUtc (launchConfig burst) = ''2025-01-01T00:00:00Z''"
  "endTimeUtc (launchConfig burst) = ''2025-01-01T01:00:00Z''"
  "amountPerMessageUsd (launchConfig burst) = Finite 100"
  "maxPerHour (launchConfig burst) = 60"
  by (simp_all add: launchConfig_def sample_fields)

lemma launch_special:
  assumes "0 < burst" "burst < 600"
  shows "specialPhaseEntries sampleRuntime (launchConfig burst) =
     Inr (launchEntries burst, Finite (3 - min burst 3), ''2025-01-01T00:10:00.000Z'')"
  using assms
  by (simp add: specialPhaseEntries_def launch_total launch_fields launchPhase_def
        sample_validDate sample_parseDate sampleUniqueSeconds_def sample_iso_10 launchEntries_def Let_def)
     (simp add: sampleRuntime_def)

text \<open>
  Claim C4 as stated fails: for the sample configuration the plan is the single buy five
  seconds after the start, and the effective end is the end of the hour span, one hour
  after the start.
\<close>

theorem effectiveEnd_not_last_entry_counterexample:
  "generateFullSchedule sampleRuntime (doubles sampleConfig) =
     Some (Inr ([\<lparr>ev_at = sampleStart + 5000, ev_kind = Buy, ev_text = None, ev_image = None\<rparr>],
                sampleStart + 3600000)) \<and>
   sampleStart + 3600000
     \<noteq> ev_at (last [\<lparr>ev_at = sampleStart + 5000, ev_kind = Buy, ev_text = None, ev_image = None\<rparr>])"
  by (simp add: sample_plan)

text \<open>
  Claim C4, as amended. When the special phase leaves no message for the hourly engine,
  \<^verbatim>\<open>generateFullSchedule\<close> returns the entries of the special phase sorted by time, and
  the effective end is the time of the last of them, or the configured start when there
  is none. When messages remain, the call returns if the start of the normal schedule is
  a valid date and the (extended) span of the normal configuration is finite: the plan is
  sorted by time, and the effective end is the one \<^verbatim>\<open>generateSchedule\<close> returns, the
  start of the normal schedule plus the hours of the span. With an infinite span the call
  does not return, and with a date that is not valid it throws.
\<close>

theorem generateFullSchedule_effectiveEnd:
  assumes special: "specialPhaseEntries rt cfg = Inr (entries, remaining, normalStartIso)"
  shows "(\<not> jsLess (Finite 0) remaining \<longrightarrow>
            (\<exists>sched. generateFullSchedule rt cfg =
                        Some (Inr (sched, if sched \<noteq> [] then ev_at (last sched)
                                          else parseDate rt (startTimeUtc cfg))) \<and>
                     sorted (map ev_at sched) \<and> mset sched = mset entries)) \<and>
         (jsLess (Finite 0) remaining \<and> validDate rt normalStartIso \<longrightarrow>
            (\<forall>hours. spanHours rt (normalConfig cfg normalStartIso remaining) = Finite hours \<longrightarrow>
               (\<exists>sched. generateFullSchedule rt cfg =
                           Some (Inr (sched, parseDate rt normalStartIso + hours * 3600000)) \<and>
                        sorted (map ev_at sched))) \<and>
            (spanHours rt (normalConfig cfg normalStartIso remaining) = PlusInfinity \<longrightarrow>
               generateFullSchedule rt cfg = None) \<and>
            (spanHours rt (normalConfig cfg normalStartIso remaining) = NaN \<or>
             spanHours rt (normalConfig cfg normalStartIso remaining) = MinusInfinity \<longrightarrow>
               generateFullSchedule rt cfg = Some (Inl RangeError))) \<and>
         (jsLess (Finite 0) remaining \<and> \<not> validDate rt normalStartIso \<longrightarrow>
            generateFullSchedule rt cfg = Some (Inl RangeError))"
proof (intro conjI impI allI)
  assume "\<not> jsLess (Finite 0) remaining"
  then have "generateFullSchedule rt cfg =
      Some (Inr (sort_key ev_at entries,
                 if sort_key ev_at entries \<noteq> [] then ev_at (last (sort_key ev_at entries))
                 else parseDate rt (startTimeUtc cfg)))"
    by (simp add: generateFullSchedule_def special Let_def)
  then show "\<exists>sched. generateFullSchedule rt cfg =
                        Some (Inr (sched, if sched \<noteq> [] then ev_at (last sched)
                                          else parseDate rt (startTimeUtc cfg))) \<and>
                     sorted (map ev_at sched) \<and> mset sched = mset entries"
    by (intro exI[of _ "sort_key ev_at entries"]) simp
next
  fix hours
  let ?n = "normalConfig cfg normalStartIso remaining"
  assume a: "jsLess (Finite 0) remaining \<and> validDate rt normalStartIso"
    and span: "spanHours rt ?n = Finite hours"
  from a have "validDate rt (startTimeUtc ?n)" by simp
  from generateSchedule_finite_span[OF this span] obtain g where
    g: "generateSchedule rt ?n = Some (Inr g)"
    and e: "g_effectiveEnd g = parseDate rt normalStartIso + hours * 3600000"
    by auto
  let ?buys = "map (\<lambda>isoTs. \<lparr>ev_at = isoTs, ev_kind = Buy, ev_text = None, ev_image = None\<rparr>) (g_schedule g)"
  have "generateFullSchedule rt cfg =
          Some (Inr (sort_key ev_at (entries @ ?buys), parseDate rt normalStartIso + hours * 3600000))"
    using a by (simp add: generateFullSchedule_def special g e Let_def)
  then show "\<exists>sched. generateFullSchedule rt cfg =
                        Some (Inr (sched, parseDate rt normalStartIso + hours * 3600000)) \<and>
                     sorted (map ev_at sched)"
    by (intro exI[of _ "sort_key ev_at (entries @ ?buys)"]) simp
next
  let ?n = "normalConfig cfg normalStartIso remaining"
  assume a: "jsLess (Finite 0) remaining \<and> validDate rt normalStartIso"
    and span: "spanHours rt ?n = PlusInfinity"
  from a have "validDate rt (startTimeUtc ?n)" by simp
  from generateSchedule_infinite_span[OF this span] a
  show "generateFullSchedule rt cfg = None"
    by (simp add: generateFullSchedule_def special)
next
  let ?n = "normalConfig cfg normalStartIso remaining"
  assume a: "jsLess (Finite 0) remaining \<and> validDate rt normalStartIso"
    and span: "spanHours rt ?n = NaN \<or> spanHours rt ?n = MinusInfinity"
  from a have "validDate rt (startTimeUtc ?n)" by simp
  from generateSchedule_no_span[OF this span] a
  show "generateFullSchedule rt cfg = Some (Inl RangeError)"
    by (simp add: generateFullSchedule_def special)
next
  let ?n = "normalConfig cfg normalStartIso remaining"
  assume a: "jsLess (Finite 0) remaining \<and> \<not> validDate rt normalStartIso"
  then have "\<not> validDate rt (startTimeUtc ?n)" by simp
  from generateSchedule_invalid_start[OF this] a
  show "generateFullSchedule rt cfg = Some (Inl RangeError)"
    by (simp add: generateFullSchedule_def special)
qed

lemma launch_entries_sorted: "sort_key ev_at (launchEntries 3) = launchEntries 3"
  by (simp add: launchEntries_def countdownMessages_def upto_rec1)

lemma launch_entries_last: "ev_at (last (launchEntries 3)) = sampleStart + 2000" "length (launchEntries 3) = 11"
  by (simp_all add: launchEntries_def countdownMessages_def upto_rec1)

lemma launch_normal_total:
  "totalMessagesNeeded (normalConfig (launchConfig 2) ''2025-01-01T00:10:00.000Z'' (Finite 1)) = Finite 1"
proof -
  have "jsTimes (Finite 1) (Finite 100) = Finite (real_of_int 100)" by (simp add: doubleOf_numeral)
  then show ?thesis
    by (intro total_of_integers[where t = 100 and a = 100])
       (simp_all add: normalConfig_def launch_fields)
qed

lemma launch_normal_fields:
  "startTimeUtc (normalConfig (launchConfig 2) ''2025-01-01T00:10:00.000Z'' (Finite 1)) = ''2025-01-01T00:10:00.000Z''"
  "endTimeUtc (normalConfig (launchConfig 2) ''2025-01-01T00:10:00.000Z'' (Finite 1)) = ''2025-01-01T01:00:00Z''"
  "maxPerHour (normalConfig (launchConfig 2) ''2025-01-01T00:10:00.000Z'' (Finite 1)) = 60"
  by (simp_all add: normalConfig_def launch_fields)

lemma launch_normal_span:
  "spanHours sampleRuntime (normalConfig (launchConfig 2) ''2025-01-01T00:10:00.000Z'' (Finite 1)) = Finite 1"
proof -
  let ?n = "normalConfig (launchConfig 2) ''2025-01-01T00:10:00.000Z'' (Finite 1)"
  have v: "validDate sampleRuntime (startTimeUtc ?n)" "validDate sampleRuntime (endTimeUtc ?n)"
    by (simp_all add: launch_normal_fields sample_validDate)
  show ?thesis
    by (simp add: spanHours_valid[OF v launch_normal_total] launch_normal_fields sample_parseDate
          ceilDiv_def Let_def)
qed

text \<open>
  Both branches on a launch at the sample start with three messages to place. A burst
  of three leaves nothing for the hourly engine: the plan is the seven countdowns, the
  start marker and the three buys of the burst, and it ends with the last of them, two
  seconds after the start. A burst of two leaves one message: the normal schedule starts
  ten minutes after the launch and spans one hour, at whose end, 70 minutes after the
  launch, the plan ends.
\<close>

theorem generateFullSchedule_effectiveEnd_witness:
  "(\<exists>sched. generateFullSchedule sampleRuntime (launchConfig 3) = Some (Inr (sched, sampleStart + 2000)) \<and>
            sched = launchEntries 3 \<and> length sched = 11 \<and> sorted (map ev_at sched)) \<and>
   spanHours sampleRuntime (normalConfig (launchConfig 2) ''2025-01-01T00:10:00.000Z'' (Finite 1)) = Finite 1 \<and>
   (\<exists>sched. generateFullSchedule sampleRuntime (launchConfig 2) = Some (Inr (sched, sampleStart + 4200000)) \<and>
            sorted (map ev_at sched))"
proof -
  have sp3: "specialPhaseEntries sampleRuntime (launchConfig 3) =
               Inr (launchEntries 3, Finite 0, ''2025-01-01T00:10:00.000Z'')"
    using launch_special[of 3] by simp
  have sp2: "specialPhaseEntries sampleRuntime (launchConfig 2) =
               Inr (launchEntries 2, Finite 1, ''2025-01-01T00:10:00.000Z'')"
    using launch_special[of 2] by simp
  from generateFullSchedule_effectiveEnd[OF sp3] obtain sched where
    s: "generateFullSchedule sampleRuntime (launchConfig 3) =
          Some (Inr (sched, if sched \<noteq> [] then ev_at (last sched)
                            else parseDate sampleRuntime (startTimeUtc (launchConfig 3))))"
    and srt: "sorted (map ev_at sched)"
    by auto
  have "generateFullSchedule sampleRuntime (launchConfig 3) =
          Some (Inr (launchEntries 3, ev_at (last (launchEntries 3))))"
    by (simp add: generateFullSchedule_def sp3 launch_entries_sorted Let_def)
       (simp add: launchEntries_def)
  with s have eq: "sched = launchEntries 3" by simp
  with s srt have first: "\<exists>sched. generateFullSchedule sampleRuntime (launchConfig 3) =
        Some (Inr (sched, sampleStart + 2000)) \<and>
        sched = launchEntries 3 \<and> length sched = 11 \<and> sorted (map ev_at sched)"
    using launch_entries_last by auto
  from generateFullSchedule_effectiveEnd[OF sp2] launch_normal_span
  have "\<exists>sched. generateFullSchedule sampleRuntime (launchConfig 2) =
          Some (Inr (sched, parseDate sampleRuntime ''2025-01-01T00:10:00.000Z'' + 1 * 3600000)) \<and>
          sorted (map ev_at sched)"
    by (simp add: sample_validDate)
  moreover have "parseDate sampleRuntime ''2025-01-01T00:10:00.000Z'' + 1 * 3600000 = sampleStart + 4200000"
    by (simp add: sample_parseDate)
  ultimately have second: "\<exists>sched. generateFullSchedule sampleRuntime (launchConfig 2) =
          Some (Inr (sched, sampleStart + 4200000)) \<and> sorted (map ev_at sched)"
    by (simp only:)
  from first launch_normal_span second show ?thesis by blast
qed

section \<open>The invariant of the execution state\<close>


text \<open>The states a call writes keep the schedule and stay within it.\<close>

lemma skipPast_written_Finished:
  "skipPast nw st ev ms acts = Finished st' acts' \<Longrightarrow> \<not> completed st \<Longrightarrow>
   \<forall>a \<in> set acts'. a \<in> set acts \<or>
     (\<exists>s. a = WriteJsonFile s \<and> schedule s = schedule st \<and>
          configSignature s = configSignature st \<and>
          sentCount s \<le> length (schedule st) \<and>
          (completed s \<longrightarrow> sentCount s = length (schedule st)))"
proof (induction nw st ev ms acts rule: skipPast.induct)
  case (1 nw st ev ms acts)
  consider (fresh) "\<not> (ms < - 30000 \<and> sentCount st < length (schedule st))"
    | (last) "ms < - 30000" "Suc (sentCount st) = length (schedule st)"
    | (step) "ms < - 30000" "Suc (sentCount st) < length (schedule st)"
    by linarith
  then show ?case
  proof cases
    case fresh
    with "1.prems" show ?thesis by (simp add: skipPast_fresh)
  next
    case last
    with "1.prems" show ?thesis by (auto simp: skipPast_last)
  next
    case step
    let ?st1 = "st\<lparr>sentCount := sentCount st + 1\<rparr>"
    let ?acts1 = "acts @ [WriteJsonFile ?st1]"
    have "\<forall>a \<in> set acts'. a \<in> set ?acts1 \<or>
     (\<exists>s. a = WriteJsonFile s \<and> schedule s = schedule ?st1 \<and>
          configSignature s = configSignature ?st1 \<and>
          sentCount s \<le> length (schedule ?st1) \<and>
          (completed s \<longrightarrow> sentCount s = length (schedule ?st1)))"
      using step "1.prems"
      by (intro "1.IH"[OF _ refl refl _ refl refl refl])
         (simp_all add: MAX_ALLOWED_DELAY_MS_def skipPast_step ev_at_itemEvent)
    moreover have "\<exists>s. WriteJsonFile ?st1 = WriteJsonFile s \<and> schedule s = schedule st \<and>
                    configSignature s = configSignature st \<and>
                    sentCount s \<le> length (schedule st) \<and>
                    (completed s \<longrightarrow> sentCount s = length (schedule st))"
      using step "1.prems" by (intro exI[of _ ?st1]) simp
    ultimately show ?thesis
      by (simp del: action.inject) blast
  qed
qed

lemma skipPast_written_Pending:
  "skipPast nw st ev ms acts = Pending st' ev' ms' acts' \<Longrightarrow> \<not> completed st \<Longrightarrow>
   \<forall>a \<in> set acts'. a \<in> set acts \<or>
     (\<exists>s. a = WriteJsonFile s \<and> schedule s = schedule st \<and>
          configSignature s = configSignature st \<and>
          sentCount s \<le> length (schedule st) \<and>
          (completed s \<longrightarrow> sentCount s = length (schedule st)))"
proof (induction nw st ev ms acts rule: skipPast.induct)
  case (1 nw st ev ms acts)
  consider (fresh) "\<not> (ms < - 30000 \<and> sentCount st < length (schedule st))"
    | (last) "ms < - 30000" "Suc (sentCount st) = length (schedule st)"
    | (step) "ms < - 30000" "Suc (sentCount st) < length (schedule st)"
    by linarith
  then show ?case
  proof cases
    case fresh
    with "1.prems" show ?thesis by (simp add: skipPast_fresh)
  next
    case last
    with "1.prems" show ?thesis by (auto simp: skipPast_last)
  next
    case step
    let ?st1 = "st\<lparr>sentCount := sentCount st + 1\<rparr>"
    let ?acts1 = "acts @ [WriteJsonFile ?st1]"
    have "\<forall>a \<in> set acts'. a \<in> set ?acts1 \<or>
     (\<exists>s. a = WriteJsonFile s \<and> schedule s = schedule ?st1 \<and>
          configSignature s = configSignature ?st1 \<and>
          sentCount s \<le> length (schedule ?st1) \<and>
          (completed s \<longrightarrow> sentCount s = length (schedule ?st1)))"
      using step "1.prems"
      by (intro "1.IH"[OF _ refl refl _ refl refl refl])
         (simp_all add: MAX_ALLOWED_DELAY_MS_def skipPast_step ev_at_itemEvent)
    moreover have "\<exists>s. WriteJsonFile ?st1 = WriteJsonFile s \<and> schedule s = schedule st \<and>
                    configSignature s = configSignature st \<and>
                    sentCount s \<le> length (schedule st) \<and>
                    (completed s \<longrightarrow> sentCount s = length (schedule st))"
      using step "1.prems" by (intro exI[of _ ?st1]) simp
    ultimately show ?thesis
      by (simp del: action.inject) blast
  qed
qed

lemma dispatch_written:
  "dispatch cfg tk st ev = (st', acts) \<Longrightarrow> WriteJsonFile s \<in> set acts \<Longrightarrow> s = st'"
  by (cases "ev_kind ev") (auto simp: dispatch_def Let_def split: if_splits)

lemma dispatch_total:
  "dispatch cfg tk st ev = (st', acts) \<Longrightarrow>
   totalUsdRaised st' = totalUsdRaised st +
     (if sendOk tk \<and> ev_kind ev = Buy then amountPerMessageUsd cfg else 0) \<and>
   (ev_kind ev = Buy \<longrightarrow> (\<exists>req. Telegram (sentCount st) ev req \<in> set acts))"
  by (cases "ev_kind ev") (auto simp: dispatch_def Let_def split: if_splits)


lemma sendNextIfDue_withinPlan:
  assumes good: "withinPlan st" and res: "sendNextIfDue cfg tk st = (st', acts)"
  shows "withinPlan st' \<and>
         (\<forall>s. WriteJsonFile s \<in> set acts \<longrightarrow>
            withinPlan s \<and> schedule s = schedule st \<and> configSignature s = configSignature st) \<and>
         (sentCount st = length (schedule st) \<longrightarrow> completed st')"
proof (cases "completed st \<or> length (schedule st) \<le> sentCount st")
  case True
  with good res show ?thesis
    by (auto simp: sendNextIfDue_def withinPlan_def Let_def split: if_splits)
next
  case False
  then have nc: "\<not> completed st" and kl: "sentCount st < length (schedule st)" by simp_all
  let ?nw = "nowMs tk"
  let ?e0 = "itemEvent (schedule st ! sentCount st)"
  let ?m0 = "itemAt (schedule st ! sentCount st) - ?nw"
  note unf = sendNextIfDue_unfold[OF nc kl, of cfg tk]
  show ?thesis
  proof (cases "skipPast ?nw st ?e0 ?m0 []")
    case (Finished s a)
    from skipPast_Finished[OF this] have s: "s = st\<lparr>sentCount := length (schedule st), completed := True\<rparr>"
      by simp
    from skipPast_written_Finished[OF Finished nc]
    have w: "\<forall>x. WriteJsonFile x \<in> set a \<longrightarrow>
            withinPlan x \<and> schedule x = schedule st \<and> configSignature x = configSignature st"
      by (auto simp: withinPlan_def)
    from res unf Finished have "st' = s" "acts = a" by simp_all
    with s w kl show ?thesis by (auto simp: withinPlan_def)
  next
    case (Pending s e m a)
    from skipPast_Pending[OF this] kl have s: "s = st\<lparr>sentCount := sentCount s\<rparr>"
      "sentCount s < length (schedule st)"
      by auto
    from s(1) nc have sf: "schedule s = schedule st" "configSignature s = configSignature st" "\<not> completed s"
      by (metis state.select_convs(2) state.surjective state.update_convs(4),
          metis state.select_convs(1) state.surjective state.update_convs(4),
          metis state.select_convs(6) state.surjective state.update_convs(4))
    from skipPast_written_Pending[OF Pending nc]
    have w: "\<forall>x. WriteJsonFile x \<in> set a \<longrightarrow>
            withinPlan x \<and> schedule x = schedule st \<and> configSignature x = configSignature st"
      by (auto simp: withinPlan_def)
    show ?thesis
    proof (cases "m \<le> 0")
      case False
      with res unf Pending have "st' = s" "acts = a @ [SetTimeout (min m 5000)]" by simp_all
      with s sf w kl show ?thesis by (auto simp: withinPlan_def)
    next
      case True
      obtain s2 a2 where d: "dispatch cfg tk s e = (s2, a2)" by (cases "dispatch cfg tk s e")
      with True Pending unf res have eq: "st' = s2" "acts = a @ a2" by simp_all
      from dispatch_state[OF d] s sf have g2: "withinPlan s2" "schedule s2 = schedule st"
        "configSignature s2 = configSignature st"
        by (auto simp: withinPlan_def)
      have "withinPlan x \<and> schedule x = schedule st \<and> configSignature x = configSignature st"
        if "WriteJsonFile x \<in> set acts" for x
      proof -
        from that eq consider "WriteJsonFile x \<in> set a" | "WriteJsonFile x \<in> set a2" by auto
        then show ?thesis
        proof cases
          case 1 with w show ?thesis by simp
        next
          case 2
          from dispatch_written[OF d 2] g2 show ?thesis by simp
        qed
      qed
      with g2 eq kl show ?thesis by simp
    qed
  qed
qed

lemma sendNextIfDue_total:
  assumes res: "sendNextIfDue cfg tk st = (st', acts)"
  shows "totalUsdRaised st' = totalUsdRaised st +
           (if sendOk tk \<and> (\<exists>i ev req. Telegram i ev req \<in> set acts \<and> ev_kind ev = Buy)
            then amountPerMessageUsd cfg else 0)"
proof (cases "completed st \<or> length (schedule st) \<le> sentCount st")
  case True
  with res show ?thesis
    by (auto simp: sendNextIfDue_def Let_def split: if_splits)
next
  case False
  then have nc: "\<not> completed st" and kl: "sentCount st < length (schedule st)" by simp_all
  let ?nw = "nowMs tk"
  let ?e0 = "itemEvent (schedule st ! sentCount st)"
  let ?m0 = "itemAt (schedule st ! sentCount st) - ?nw"
  note unf = sendNextIfDue_unfold[OF nc kl, of cfg tk]
  show ?thesis
  proof (cases "skipPast ?nw st ?e0 ?m0 []")
    case (Finished s a)
    from skipPast_Finished[OF this] have s: "s = st\<lparr>sentCount := length (schedule st), completed := True\<rparr>"
      and a: "writesOnly a" by auto
    from res unf Finished have "st' = s" "acts = a" by simp_all
    with s a show ?thesis by (auto dest: writesOnly_no_telegram)
  next
    case (Pending s e m a)
    from skipPast_Pending[OF this] have s: "s = st\<lparr>sentCount := sentCount s\<rparr>" and a: "writesOnly a"
      by auto
    from s have t: "totalUsdRaised s = totalUsdRaised st"
      by (metis state.select_convs(5) state.surjective state.update_convs(4))
    show ?thesis
    proof (cases "m \<le> 0")
      case False
      with res unf Pending have "st' = s" "acts = a @ [SetTimeout (min m 5000)]" by simp_all
      with t a show ?thesis by (auto dest: writesOnly_no_telegram)
    next
      case True
      obtain s2 a2 where d: "dispatch cfg tk s e = (s2, a2)" by (cases "dispatch cfg tk s e")
      with True Pending unf res have eq: "st' = s2" "acts = a @ a2" by simp_all
      have "(\<exists>i ev req. Telegram i ev req \<in> set acts \<and> ev_kind ev = Buy) \<longleftrightarrow> ev_kind e = Buy"
      proof
        assume "\<exists>i ev req. Telegram i ev req \<in> set acts \<and> ev_kind ev = Buy"
        then obtain i ev req where tg: "Telegram i ev req \<in> set acts" and b: "ev_kind ev = Buy" by blast
        with eq a have "Telegram i ev req \<in> set a2" by (auto dest: writesOnly_no_telegram)
        from dispatch_telegram[OF d this] b show "ev_kind e = Buy" by simp
      next
        assume "ev_kind e = Buy"
        with dispatch_total[OF d] eq show "\<exists>i ev req. Telegram i ev req \<in> set acts \<and> ev_kind ev = Buy"
          by auto
      qed
      with dispatch_total[OF d] t eq show ?thesis by simp
    qed
  qed
qed

lemma hardStopTrim_result:
  "hardStopTrim rt cfg st = (st', acts) \<Longrightarrow>
   st' = (if enforceHardStopAtEnd cfg
          then st\<lparr>schedule := filter (\<lambda>item. itemAt item \<le> parseDate rt (endTimeUtc cfg)) (schedule st)\<rparr>
          else st) \<and>
   acts = (if enforceHardStopAtEnd cfg then [WriteJsonFile st'] else []) \<and> trimmed rt cfg st'"
  by (auto simp: hardStopTrim_def Let_def trimmed_def list_all_iff split: if_splits)

text \<open>A freshly generated state, trimmed or not, has the cursor at 0 and is not complete.\<close>

lemma startup_fresh:
  assumes "startup rt cfg None = Inr (st, acts)"
  shows "sentCount st = 0 \<and> \<not> completed st \<and> configSignature st = getConfigSignature cfg \<and>
         trimmed rt cfg st \<and> totalUsdRaised st = startRaisedUsd cfg \<and>
         (\<forall>s. WriteJsonFile s \<in> set acts \<longrightarrow>
            sentCount s = 0 \<and> \<not> completed s \<and> configSignature s = getConfigSignature cfg)"
proof -
  from assms obtain s0 a0 a1 where
    gen: "loadOrGenerate rt cfg None = Inr (s0, a0)" and trim: "hardStopTrim rt cfg s0 = (st, a1)"
    and acts: "acts = a0 @ a1"
    by (auto simp: startup_def split: if_splits sum.splits prod.splits)
  from gen have s0: "sentCount s0 = 0" "\<not> completed s0" "configSignature s0 = getConfigSignature cfg"
    "totalUsdRaised s0 = startRaisedUsd cfg" "a0 = [WriteJsonFile s0]"
    by (auto simp: loadOrGenerate_def Let_def split: option.splits sum.splits prod.splits)
  from hardStopTrim_result[OF trim] s0 acts show ?thesis
    by (auto split: if_splits)
qed

lemma startup_reload:
  assumes within: "withinPlan p" and sig: "configSignature p = getConfigSignature cfg"
    and tr: "trimmed rt cfg p \<or> (sentCount p = 0 \<and> \<not> completed p)"
    and start: "startup rt cfg (Some p) = Inr (st, acts)"
  shows "withinPlan st \<and> configSignature st = getConfigSignature cfg \<and> trimmed rt cfg st \<and>
         (\<forall>s. WriteJsonFile s \<in> set acts \<longrightarrow> s = st)"
proof -
  note k = startup_kept[OF sig start]
  show ?thesis
  proof (cases "enforceHardStopAtEnd cfg")
    case False
    with k within sig show ?thesis by (simp add: trimmed_def)
  next
    case True
    let ?f = "filter (\<lambda>item. itemAt item \<le> parseDate rt (endTimeUtc cfg)) (schedule p)"
    from k True have st: "st = p\<lparr>schedule := ?f\<rparr>" and acts: "acts = [WriteJsonFile st]" by simp_all
    have "withinPlan st"
    proof (cases "trimmed rt cfg p")
      case True
      with \<open>enforceHardStopAtEnd cfg\<close> have "?f = schedule p"
        by (simp add: trimmed_def list_all_iff)
      with st within show ?thesis by (simp add: withinPlan_def)
    next
      case False
      with tr st show ?thesis by (simp add: withinPlan_def)
    qed
    with st acts sig show ?thesis by (simp add: trimmed_def list_all_iff)
  qed
qed

text \<open>The invariant of the run, for the state in memory and for the state on file.\<close>

lemma run_invariant:
  "(running rt cfg st \<longrightarrow>
      withinPlan st \<and> configSignature st = getConfigSignature cfg \<and> trimmed rt cfg st) \<and>
   (persisted rt cfg s \<longrightarrow>
      withinPlan s \<and> configSignature s = getConfigSignature cfg \<and>
      (trimmed rt cfg s \<or> (sentCount s = 0 \<and> \<not> completed s)))"
proof (induct rule: running_persisted.induct)
  case (started st acts)
  from startup_fresh[OF this] show ?case by (simp add: withinPlan_def)
next
  case (restarted p st acts)
  with startup_reload[of p cfg rt st acts] show ?case by simp
next
  case (called st tk st' acts)
  from sendNextIfDue_withinPlan[OF _ called(3)] sendNextIfDue_frame[OF called(3)] called(2)
  show ?case by (simp add: trimmed_def)
next
  case (written_at_start st acts s)
  from startup_fresh[OF written_at_start(1)] written_at_start(2) show ?case
    by (simp add: withinPlan_def)
next
  case (written_at_restart p st acts s)
  with startup_reload[of p cfg rt st acts] show ?case by auto
next
  case (written_in_call st tk st' acts s)
  from sendNextIfDue_withinPlan[OF _ written_in_call(3)] written_in_call(2,4)
  show ?case by (auto simp: trimmed_def)
qed


lemma sample_startup:
  "startup sampleRuntime sampleConfig None = Inr (sampleFresh, [WriteJsonFile sampleFresh])"
  by (simp add: startup_def loadOrGenerate_def sample_plan hardStopTrim_def Let_def sampleFresh_def
        sampleBuy_def)
     (simp add: sampleConfig_def truthy_def)

lemma sample_first_call:
  "sendNextIfDue sampleConfig (sampleTick (sampleStart + 5000) True) sampleFresh =
     (sampleFresh\<lparr>sentCount := 1, totalUsdRaised := 100\<rparr>,
      [Telegram 0 \<lparr>ev_at = sampleStart + 5000, ev_kind = Buy, ev_text = None, ev_image = None\<rparr>
         (SendTelegramPhoto ''feed.png'' (BuyMessage (sampleStart + 5000) 100 714)),
       WriteJsonFile (sampleFresh\<lparr>sentCount := 1, totalUsdRaised := 100\<rparr>),
       SetTimeout 1000])"
  by (simp add: sendNextIfDue_def skipPast.simps dispatch_def MAX_ALLOWED_DELAY_MS_def
        sampleFresh_def sampleTick_def sampleBuy_def sampleConfig_def Let_def)

lemma sample_running:
  "running sampleRuntime sampleConfig (sampleFresh\<lparr>sentCount := 1, totalUsdRaised := 100\<rparr>)"
  by (rule running_persisted.called[OF running_persisted.started[OF sample_startup] sample_first_call])

text \<open>
  Claim C8 as stated fails on the completion flag: after the only entry of the sample
  plan is sent, the cursor is at the end of the plan and the flag is not set (the next
  call sets it).
\<close>

theorem completed_not_iff_cursor_at_end_counterexample:
  "running sampleRuntime sampleConfig (sampleFresh\<lparr>sentCount := 1, totalUsdRaised := 100\<rparr>) \<and>
   sentCount (sampleFresh\<lparr>sentCount := 1, totalUsdRaised := 100\<rparr>)
     = length (schedule (sampleFresh\<lparr>sentCount := 1, totalUsdRaised := 100\<rparr>)) \<and>
   \<not> completed (sampleFresh\<lparr>sentCount := 1, totalUsdRaised := 100\<rparr>)"
  using sample_running by (simp add: sampleFresh_def)

text \<open>
  Claim C8, as amended. Every execution state of a run, in memory between two calls or
  written to the state file, has its cursor at most the length of its plan, and has the
  completion flag set only if the cursor is at the end of the plan; a call that finds the
  cursor at the end sets the flag. In every call the running total grows by exactly the
  amount per message when a buy is sent successfully, and stays as it is otherwise.
\<close>

theorem execution_state_invariant:
  assumes "running rt cfg st \<or> persisted rt cfg st"
  shows "sentCount st \<le> length (schedule st) \<and>
         (completed st \<longrightarrow> sentCount st = length (schedule st)) \<and>
         (\<forall>tk st' acts. sendNextIfDue cfg tk st = (st', acts) \<longrightarrow>
            (sentCount st = length (schedule st) \<longrightarrow> completed st') \<and>
            totalUsdRaised st' = totalUsdRaised st +
              (if sendOk tk \<and> (\<exists>i ev req. Telegram i ev req \<in> set acts \<and> ev_kind ev = Buy)
               then amountPerMessageUsd cfg else 0))"
proof -
  from assms run_invariant[of rt cfg st st] have w: "withinPlan st" by blast
  have "(sentCount st = length (schedule st) \<longrightarrow> completed st') \<and>
        totalUsdRaised st' = totalUsdRaised st +
          (if sendOk tk \<and> (\<exists>i ev req. Telegram i ev req \<in> set acts \<and> ev_kind ev = Buy)
           then amountPerMessageUsd cfg else 0)"
    if res: "sendNextIfDue cfg tk st = (st', acts)" for tk st' acts
    using sendNextIfDue_withinPlan[OF w res] sendNextIfDue_total[OF res] by blast
  with w show ?thesis unfolding withinPlan_def by blast
qed

text \<open>
  The state of the sample run after its only buy is sent: the cursor is within the plan,
  and the call one second later sets the completion flag and leaves the total at 100.
\<close>

theorem execution_state_invariant_witness:
  "running sampleRuntime sampleConfig (sampleFresh\<lparr>sentCount := 1, totalUsdRaised := 100\<rparr>) \<and>
   sentCount (sampleFresh\<lparr>sentCount := 1, totalUsdRaised := 100\<rparr>)
     \<le> length (schedule (sampleFresh\<lparr>sentCount := 1, totalUsdRaised := 100\<rparr>)) \<and>
   completed (fst (sendNextIfDue sampleConfig (sampleTick (sampleStart + 6000) True)
                     (sampleFresh\<lparr>sentCount := 1, totalUsdRaised := 100\<rparr>))) \<and>
   totalUsdRaised (fst (sendNextIfDue sampleConfig (sampleTick (sampleStart + 6000) True)
                     (sampleFresh\<lparr>sentCount := 1, totalUsdRaised := 100\<rparr>))) = 100"
proof -
  let ?s = "sampleFresh\<lparr>sentCount := 1, totalUsdRaised := 100\<rparr>"
  let ?tk = "sampleTick (sampleStart + 6000) True"
  let ?r = "sendNextIfDue sampleConfig ?tk ?s"
  have run: "running sampleRuntime sampleConfig ?s \<or> persisted sampleRuntime sampleConfig ?s"
    using sample_running by simp
  note inv = execution_state_invariant[OF run]
  have res: "?r = (fst ?r, snd ?r)" by simp
  have r: "?r = (?s\<lparr>completed := True\<rparr>, [WriteJsonFile (?s\<lparr>completed := True\<rparr>)])"
    by (simp add: sendNextIfDue_def sampleFresh_def Let_def)
  from inv have le: "sentCount ?s \<le> length (schedule ?s)" by blast
  from inv res have "(sentCount ?s = length (schedule ?s) \<longrightarrow> completed (fst ?r)) \<and>
      totalUsdRaised (fst ?r) = totalUsdRaised ?s +
        (if sendOk ?tk \<and> (\<exists>i ev req. Telegram i ev req \<in> set (snd ?r) \<and> ev_kind ev = Buy)
         then amountPerMessageUsd sampleConfig else 0)"
    by blast
  then have "completed (fst ?r)" and "totalUsdRaised (fst ?r) = 100"
    unfolding r by (simp_all add: sampleFresh_def)
  with sample_running le show ?thesis by blast
qed

section \<open>Properties of the configuration signature\<close>


declare showNat.simps [simp del]















































end
